theory Spec2Isabelle
  imports Main "HOL-Library.Char_ord" "HOL-Library.List_Lexorder" "HOL-Library.Sublist"
    "HOL-Library.AList" "HOL-Library.Code_Target_Nat"
begin

section \<open>Python strings\<close>

text \<open>
  The values of the cells and the names of the columns are Python \<open>str\<close> objects: lists
  of Unicode code points. \<open>str\<close> gives the code points of a literal.
\<close>

type_synonym pystr = "nat list"

definition str :: "string \<Rightarrow> pystr" where
  "str s = map of_char s"

text \<open>
  White space is what \<open>str.isspace\<close> holds for on a single character; \<open>str.strip\<close>,
  \<open>str.split\<close> without separator and \<open>\s\<close> in a pattern on \<open>str\<close> use the same set of
  code points.
\<close>

definition isspace :: "nat \<Rightarrow> bool" where
  "isspace c =
     ((0x09 \<le> c \<and> c \<le> 0x0D) \<or> (0x1C \<le> c \<and> c \<le> 0x20) \<or> c = 0x85 \<or> c = 0xA0 \<or>
      c = 0x1680 \<or> (0x2000 \<le> c \<and> c \<le> 0x200A) \<or> c = 0x2028 \<or> c = 0x2029 \<or>
      c = 0x202F \<or> c = 0x205F \<or> c = 0x3000)"

text \<open>
  The case mappings come from the Unicode database of the interpreter and are
  parameters: \<open>upper_of c\<close> and \<open>lower_of c\<close> are the full upper-case and lower-case
  mappings of a code point (one code point may give several, as \<open>U+00DF\<close> gives \<open>SS\<close>),
  \<open>final_sigma pre post\<close> says whether a capital sigma between the two texts is at
  the end of a word, and \<open>isupper c\<close> is \<open>str.isupper\<close> on the single character.
\<close>

record casing =
  upper_of :: "nat \<Rightarrow> pystr"
  lower_of :: "nat \<Rightarrow> pystr"
  final_sigma :: "pystr \<Rightarrow> pystr \<Rightarrow> bool"
  isupper :: "nat \<Rightarrow> bool"

text \<open>\<open>str.upper\<close> maps each code point by itself.\<close>

definition upper :: "casing \<Rightarrow> pystr \<Rightarrow> pystr" where
  "upper u s = concat (map (upper_of u) s)"

text \<open>
  \<open>str.lower\<close> maps each code point by itself, but for the capital sigma \<open>U+03A3\<close>, which
  becomes \<open>U+03C2\<close> at the end of a word and \<open>U+03C3\<close> elsewhere.
\<close>

definition lower_piece :: "casing \<Rightarrow> pystr \<Rightarrow> nat \<Rightarrow> pystr \<Rightarrow> pystr" where
  "lower_piece u pre c post =
     (if c = 0x3A3 then [if final_sigma u pre post then 0x3C2 else 0x3C3] else lower_of u c)"

fun lower_from :: "casing \<Rightarrow> pystr \<Rightarrow> pystr \<Rightarrow> pystr" where
  "lower_from u pre [] = []"
| "lower_from u pre (c # post) = lower_piece u pre c post @ lower_from u (pre @ [c]) post"

definition lower :: "casing \<Rightarrow> pystr \<Rightarrow> pystr" where
  "lower u s = lower_from u [] s"

text \<open>
  The facts about the case mappings of Python that the properties below rest on. Each
  is a statement about single code points:
  \<^item> on ASCII, \<open>upper_of\<close> maps the letters \<open>a\<close> to \<open>z\<close> to \<open>A\<close> to \<open>Z\<close> and keeps every
    other code point;
  \<^item> a white-space character is its own upper case;
  \<^item> a code point of an upper-case mapping is its own upper case, is white space only
    if the mapped code point is, and is no parenthesis when the mapped code point is
    beyond ASCII;
  \<^item> no lower-case mapping is empty;
  \<^item> a code point of a lower-case mapping is its own lower case, is no capital sigma,
    and is white space only if the mapped code point is;
  \<^item> the two small sigmas \<open>U+03C2\<close> and \<open>U+03C3\<close> are their own lower case.
\<close>

definition python_casing :: "casing \<Rightarrow> bool" where
  "python_casing u =
     ((\<forall>c<128. upper_of u c = [if 97 \<le> c \<and> c \<le> 122 then c - 32 else c]) \<and>
      (\<forall>c. isspace c \<longrightarrow> upper_of u c = [c]) \<and>
      (\<forall>c. \<forall>d\<in>set (upper_of u c).
          upper_of u d = [d] \<and> (isspace d \<longrightarrow> isspace c) \<and> (128 \<le> c \<longrightarrow> d \<noteq> 40 \<and> d \<noteq> 41)) \<and>
      (\<forall>c. lower_of u c \<noteq> []) \<and>
      (\<forall>c. \<forall>d\<in>set (lower_of u c).
          lower_of u d = [d] \<and> d \<noteq> 0x3A3 \<and> (isspace d \<longrightarrow> isspace c)) \<and>
      lower_of u 0x3C2 = [0x3C2] \<and> lower_of u 0x3C3 = [0x3C3])"

text \<open>
  The mappings on the code points that the examples use: ASCII, \<open>U+00C9\<close> and \<open>U+00E9\<close>
  (E with acute), \<open>U+00DF\<close> (sharp s), the three sigmas and \<open>U+2102\<close> (the
  double-struck capital C, an upper-case letter without lower-case form). An example
  never holds another code point beyond ASCII, and none holds a sigma.
\<close>

definition sample :: casing where
  "sample =
     \<lparr>upper_of = (\<lambda>c. if 97 \<le> c \<and> c \<le> 122 then [c - 32]
                     else if c = 0xE9 then [0xC9]
                     else if c = 0xDF then [83, 83]
                     else if c = 0x3C2 \<or> c = 0x3C3 then [0x3A3]
                     else [c]),
      lower_of = (\<lambda>c. if 65 \<le> c \<and> c \<le> 90 then [c + 32]
                     else if c = 0xC9 then [0xE9]
                     else if c = 0x3A3 then [0x3C3]
                     else [c]),
      final_sigma = (\<lambda>pre post. False),
      isupper = (\<lambda>c. (65 \<le> c \<and> c \<le> 90) \<or> c = 0xC9 \<or> c = 0x2102 \<or> c = 0x3A3)\<rparr>"

definition lstrip :: "pystr \<Rightarrow> pystr" where
  "lstrip s = dropWhile isspace s"

definition rstrip :: "pystr \<Rightarrow> pystr" where
  "rstrip s = rev (dropWhile isspace (rev s))"

definition strip :: "pystr \<Rightarrow> pystr" where
  "strip s = rstrip (lstrip s)"

text \<open>
  \<open>s.split()\<close> without a separator: the maximal runs of characters that are not white
  space, in order; \<open>w\<close> is the run being read.
\<close>

fun split_from :: "pystr \<Rightarrow> pystr \<Rightarrow> pystr list" where
  "split_from w [] = (if w = [] then [] else [w])"
| "split_from w (c # cs) =
     (if isspace c then (if w = [] then split_from [] cs else w # split_from [] cs)
      else split_from (w @ [c]) cs)"

definition split :: "pystr \<Rightarrow> pystr list" where
  "split s = split_from [] s"

fun join :: "pystr \<Rightarrow> pystr list \<Rightarrow> pystr" where
  "join sep [] = []"
| "join sep [w] = w"
| "join sep (w # v # ws) = w @ sep @ join sep (v # ws)"

definition replace :: "nat \<Rightarrow> nat \<Rightarrow> pystr \<Rightarrow> pystr" where
  "replace old new s = map (\<lambda>c. if c = old then new else c) s"

text \<open>
  The names of files and the keys of objects are only compared, ordered, tested for a
  suffix and split at dots and slashes; they stay values of \<^typ>\<open>string\<close>.
\<close>

definition endswith :: "string \<Rightarrow> string \<Rightarrow> bool" where
  "endswith s suf = suffix suf s"

section \<open>The column-name transformation\<close>

text \<open>
  \<open>re.sub(r'\s*\([^)]*\)', '', col)\<close>. The code points 40 and 41 are the two
  parentheses. A match of the pattern at the start of \<open>s\<close> reads all the white space there
  (reading less leaves a white-space character where \<open>\(\<close> is required), then a \<open>(\<close>,
  then everything up to the first \<open>)\<close> (reading less leaves a character other than \<open>)\<close>
  where \<open>\)\<close> is required). \<open>match_paren s\<close> is what follows the match, or \<open>None\<close> when the
  pattern does not match at the start of \<open>s\<close>.
\<close>

definition match_paren :: "pystr \<Rightarrow> pystr option" where
  "match_paren s =
     (case dropWhile isspace s of
        [] \<Rightarrow> None
      | c # t \<Rightarrow>
          if c = 40 then
            (case dropWhile (\<lambda>x. x \<noteq> 41) t of [] \<Rightarrow> None | d # v \<Rightarrow> Some v)
          else None)"

lemma match_paren_shorter: "match_paren s = Some v \<Longrightarrow> length v < length s"
proof -
  assume m: "match_paren s = Some v"
  then obtain t where t: "dropWhile isspace s = 40 # t"
    by (auto simp: match_paren_def split: list.splits if_splits)
  with m obtain d where d: "dropWhile (\<lambda>x. x \<noteq> 41) t = d # v"
    by (auto simp: match_paren_def split: list.splits)
  have "length (d # v) \<le> length t"
    unfolding d [symmetric] by (rule length_dropWhile_le)
  moreover have "length (40 # t) \<le> length s"
    unfolding t [symmetric] by (rule length_dropWhile_le)
  ultimately show ?thesis by simp
qed

text \<open>
  \<open>re.sub\<close> replaces the non-overlapping matches from left to right: where the pattern
  matches, the match is dropped and the scan goes on behind it; where it does not, the
  character is kept and the scan moves one character on. A match is never empty.
\<close>

function re_sub_paren :: "pystr \<Rightarrow> pystr" where
  "re_sub_paren [] = []"
| "re_sub_paren (c # cs) =
     (case match_paren (c # cs) of
        Some v \<Rightarrow> re_sub_paren v
      | None \<Rightarrow> c # re_sub_paren cs)"
  by pat_completeness auto
termination
  by (relation "measure length") (auto dest: match_paren_shorter)

text \<open>
  The three list comprehensions of \<open>_clean_column_names\<close>, each on one name. The code
  point 32 is the space, 95 the underscore.
\<close>

definition collapse_name :: "pystr \<Rightarrow> pystr" where
  "collapse_name col = join [32] (split (strip col))"

definition unparen_name :: "pystr \<Rightarrow> pystr" where
  "unparen_name col = re_sub_paren col"

definition snake_name :: "casing \<Rightarrow> pystr \<Rightarrow> pystr" where
  "snake_name u col = replace 32 95 (strip (upper u col))"

definition transform :: "casing \<Rightarrow> pystr \<Rightarrow> pystr" where
  "transform u col = snake_name u (unparen_name (collapse_name col))"

text \<open>
  A parenthesized span in the sense of the pattern is a \<open>(\<close> with a \<open>)\<close> somewhere
  behind it. \<open>no_span s\<close> says that \<open>s\<close> holds none.
\<close>

fun no_span :: "pystr \<Rightarrow> bool" where
  "no_span [] = True"
| "no_span (c # cs) = ((c = 40 \<longrightarrow> 41 \<notin> set cs) \<and> no_span cs)"

section \<open>Exceptions\<close>

text \<open>
  A Python exception is a value; a computation that may raise returns \<open>exn + 'a\<close>, with
  \<open>Inl\<close> the exception. \<open>Failure\<close> stands for any other subclass of \<open>Exception\<close>, as
  raised by the table decoders and the storage client. Every constructor carries the
  message that \<open>str(e)\<close> gives, written without its quotation marks.
\<close>

datatype exn =
    AttributeError string
  | ValueError string
  | IndexError string
  | KeyError string
  | Failure string

fun str_of_exn :: "exn \<Rightarrow> string" where
  "str_of_exn (AttributeError m) = m"
| "str_of_exn (ValueError m) = m"
| "str_of_exn (IndexError m) = m"
| "str_of_exn (KeyError m) = m"
| "str_of_exn (Failure m) = m"

definition and_then :: "exn + 'a \<Rightarrow> ('a \<Rightarrow> exn + 'b) \<Rightarrow> exn + 'b" where
  "and_then r f = (case r of Inl e \<Rightarrow> Inl e | Inr x \<Rightarrow> f x)"

text \<open>\<open>xs[i]\<close> for \<open>i \<ge> 0\<close>.\<close>

definition item :: "'a list \<Rightarrow> nat \<Rightarrow> exn + 'a" where
  "item xs i = (if i < length xs then Inr (xs ! i) else Inl (IndexError ''list index out of range''))"

section \<open>Tables\<close>

text \<open>
  A DataFrame: the column labels, the dtype of each column, the row labels and the rows.
  A cell is a string, an integer, the float \<open>nan\<close> or \<open>None\<close>; the last two are the
  missing values. Other values (other floats, dates, bytes) are outside the model.
  A column label is a string or, as a decoder gives for unnamed columns, an integer.
  Only the dtype \<open>object\<close> matters to the code, every other dtype keeps its name.
\<close>

datatype cell = Str pystr | Num int | NaN | NoneVal

datatype dtype = ObjectDtype | OtherDtype string

datatype label = Name pystr | Pos int

definition is_null :: "cell \<Rightarrow> bool" where
  "is_null c = (c = NaN \<or> c = NoneVal)"

record table =
  columns :: "label list"
  dtypes :: "dtype list"
  row_index :: "int list"
  rows :: "cell list list"

definition wf_table :: "table \<Rightarrow> bool" where
  "wf_table t =
     (length (dtypes t) = length (columns t) \<and> length (row_index t) = length (rows t) \<and>
      list_all (\<lambda>r. length r = length (columns t)) (rows t))"

text \<open>\<open>df.select_dtypes(include=['object']).columns\<close>\<close>

definition object_columns :: "table \<Rightarrow> label list" where
  "object_columns t = map fst (filter (\<lambda>(l, d). d = ObjectDtype) (zip (columns t) (dtypes t)))"

fun first_pos :: "'a \<Rightarrow> 'a list \<Rightarrow> nat" where
  "first_pos x [] = 0"
| "first_pos x (y # ys) = (if x = y then 0 else Suc (first_pos x ys))"

text \<open>
  \<open>df[col].str\<close>: \<open>df[col]\<close> is the column when the label occurs once; when the label
  occurs several times it is a DataFrame, which has no attribute \<open>str\<close>.
\<close>

definition getitem :: "table \<Rightarrow> label \<Rightarrow> exn + cell list" where
  "getitem t col =
     (if count_list (columns t) col = 0 then Inl (KeyError ''column'')
      else if count_list (columns t) col = 1
        then Inr (map (\<lambda>r. r ! first_pos col (columns t)) (rows t))
      else Inl (AttributeError ''DataFrame object has no attribute str''))"

text \<open>
  The \<open>.str\<close> accessor checks the inferred type of the values that are not missing
  and refuses a column that holds numbers only.
\<close>

datatype inferred = InferString | InferEmpty | InferInteger | InferMixed

definition is_str :: "cell \<Rightarrow> bool" where
  "is_str c = (case c of Str s \<Rightarrow> True | _ \<Rightarrow> False)"

definition is_num :: "cell \<Rightarrow> bool" where
  "is_num c = (case c of Num n \<Rightarrow> True | _ \<Rightarrow> False)"

definition infer_dtype :: "cell list \<Rightarrow> inferred" where
  "infer_dtype vals =
     (let present = filter (\<lambda>c. \<not> is_null c) vals in
      if present = [] then InferEmpty
      else if list_all is_str present then InferString
      else if list_all is_num present then InferInteger
      else InferMixed)"

definition str_accessor :: "cell list \<Rightarrow> exn + cell list" where
  "str_accessor vals =
     (if infer_dtype vals = InferInteger
      then Inl (AttributeError ''Can only use .str accessor with string values!'')
      else Inr vals)"

text \<open>
  A string method of the accessor keeps a missing value as it is and gives \<open>nan\<close> for
  any other entry that is no string.
\<close>

fun str_map :: "(pystr \<Rightarrow> pystr) \<Rightarrow> cell \<Rightarrow> cell" where
  "str_map f (Str s) = Str (f s)"
| "str_map f (Num n) = NaN"
| "str_map f NaN = NaN"
| "str_map f NoneVal = NoneVal"

definition str_strip :: "cell list \<Rightarrow> exn + cell list" where
  "str_strip vals = and_then (str_accessor vals) (\<lambda>vs. Inr (map (str_map strip) vs))"

definition str_lower :: "casing \<Rightarrow> cell list \<Rightarrow> exn + cell list" where
  "str_lower u vals = and_then (str_accessor vals) (\<lambda>vs. Inr (map (str_map (lower u)) vs))"

text \<open>\<open>df[col] = values\<close>, for a label that occurs once.\<close>

definition setitem :: "table \<Rightarrow> label \<Rightarrow> cell list \<Rightarrow> table" where
  "setitem t col vals =
     t\<lparr>rows := map (\<lambda>(r, v). r[first_pos col (columns t) := v]) (zip (rows t) vals)\<rparr>"

text \<open>
  \<open>df.duplicated()\<close> marks a row that equals an earlier row. A frame of one column
  compares the values of that column, where \<open>nan\<close> equals \<open>nan\<close> and \<open>None\<close> equals
  \<open>None\<close>, but not each other. A frame of several columns compares the rows by the
  codes that \<open>factorize\<close> gives the values of each column, and there every missing value
  has the same code. \<open>df.drop_duplicates(ignore_index=True)\<close> keeps the rows not marked
  and labels them from zero. A frame with no column or no row is left as it is.
\<close>

definition null_key :: "cell \<Rightarrow> cell" where
  "null_key c = (if is_null c then NaN else c)"

definition row_key :: "nat \<Rightarrow> cell list \<Rightarrow> cell list" where
  "row_key ncols r = (if ncols = 1 then r else map null_key r)"

fun duplicated_from :: "'a list \<Rightarrow> 'a list \<Rightarrow> bool list" where
  "duplicated_from seen [] = []"
| "duplicated_from seen (r # rs) = (r \<in> set seen) # duplicated_from (r # seen) rs"

definition duplicated :: "'a list \<Rightarrow> bool list" where
  "duplicated rs = duplicated_from [] rs"

definition keep_unmarked :: "'a list \<Rightarrow> bool list \<Rightarrow> 'a list" where
  "keep_unmarked rs marks = map fst (filter (\<lambda>(r, d). \<not> d) (zip rs marks))"

definition drop_duplicates :: "table \<Rightarrow> table" where
  "drop_duplicates t =
     (if columns t = [] \<or> rows t = [] then t
      else
        (let marks = duplicated (map (row_key (length (columns t))) (rows t));
             result = keep_unmarked (rows t) marks
         in t\<lparr>rows := result, row_index := map int [0..<length result]\<rparr>))"

section \<open>Normalization\<close>

text \<open>
  \<open>_clean_column_names\<close>: the first comprehension calls \<open>col.strip()\<close>, which an
  integer label does not have.
\<close>

fun collapse_label :: "label \<Rightarrow> exn + pystr" where
  "collapse_label (Name s) = Inr (collapse_name s)"
| "collapse_label (Pos i) = Inl (AttributeError ''int object has no attribute strip'')"

fun map_exn :: "('a \<Rightarrow> exn + 'b) \<Rightarrow> 'a list \<Rightarrow> exn + 'b list" where
  "map_exn f [] = Inr []"
| "map_exn f (x # xs) =
     (case f x of
        Inl e \<Rightarrow> Inl e
      | Inr y \<Rightarrow> (case map_exn f xs of Inl e \<Rightarrow> Inl e | Inr ys \<Rightarrow> Inr (y # ys)))"

definition clean_column_names :: "casing \<Rightarrow> label list \<Rightarrow> exn + pystr list" where
  "clean_column_names u cols =
     and_then (map_exn collapse_label cols)
       (\<lambda>cols1. let cols2 = map unparen_name cols1 in Inr (map (snake_name u) cols2))"

text \<open>
  \<open>_clean_dataframe\<close> works on objects: the store is the list of the DataFrames
  allocated so far, and a reference is a position in it. \<open>df.copy()\<close> allocates a new
  object; the assignments, \<open>drop_duplicates(inplace=True)\<close> and the setting of
  \<open>df.columns\<close> update the object they are applied to.
\<close>

type_synonym heap = "table list"

definition copy :: "nat \<Rightarrow> heap \<Rightarrow> nat \<times> heap" where
  "copy a h = (length h, h @ [h ! a])"

fun str_loop :: "casing \<Rightarrow> label list \<Rightarrow> nat \<Rightarrow> heap \<Rightarrow> exn option \<times> heap" where
  "str_loop u [] df h = (None, h)"
| "str_loop u (col # cols) df h =
     (case and_then (and_then (getitem (h ! df) col) str_strip) (str_lower u) of
        Inl e \<Rightarrow> (Some e, h)
      | Inr vals \<Rightarrow> str_loop u cols df (h[df := setitem (h ! df) col vals]))"

definition clean_dataframe :: "casing \<Rightarrow> nat \<Rightarrow> heap \<Rightarrow> (exn + nat) \<times> heap" where
  "clean_dataframe u a h =
     (let (df, h1) = copy a h in
      case str_loop u (object_columns (h1 ! df)) df h1 of
        (Some e, h2) \<Rightarrow> (Inl e, h2)
      | (None, h2) \<Rightarrow>
          (let h3 = h2[df := drop_duplicates (h2 ! df)] in
           case clean_column_names u (columns (h3 ! df)) of
             Inl e \<Rightarrow> (Inl e, h3)
           | Inr names \<Rightarrow> (Inr df, h3[df := (h3 ! df)\<lparr>columns := map Name names\<rparr>])))"

text \<open>The value that a call on a table returns, run in a store that holds that table only.\<close>

definition clean_table :: "casing \<Rightarrow> table \<Rightarrow> exn + table" where
  "clean_table u t =
     (case clean_dataframe u 0 [t] of
        (Inl e, h) \<Rightarrow> Inl e
      | (Inr df, h) \<Rightarrow> Inr (h ! df))"

section \<open>References to files\<close>

text \<open>
  The loop variable of the local pipeline is a \<open>pathlib.Path\<close> (given here by its final
  component), that of the remote pipeline is a \<open>str\<close>. The two classes differ in their
  attributes: a path has \<open>name\<close> and \<open>stem\<close> and no \<open>endswith\<close>, a string has
  \<open>endswith\<close> and neither \<open>name\<close> nor \<open>stem\<close>. Reading an attribute that the object does
  not have raises \<open>AttributeError\<close>.
\<close>

datatype pyobj = PathObj string | StrObj string

fun obj_endswith :: "pyobj \<Rightarrow> string \<Rightarrow> exn + bool" where
  "obj_endswith (StrObj s) suf = Inr (endswith s suf)"
| "obj_endswith (PathObj n) suf = Inl (AttributeError ''PosixPath object has no attribute endswith'')"

fun obj_name :: "pyobj \<Rightarrow> exn + string" where
  "obj_name (PathObj n) = Inr n"
| "obj_name (StrObj s) = Inl (AttributeError ''str object has no attribute name'')"

text \<open>
  \<open>Path.stem\<close>: with \<open>i\<close> the position of the last dot of the name, the name up to \<open>i\<close>
  when \<open>0 < i < len(name) - 1\<close>, and the whole name otherwise.
\<close>

definition path_stem :: "string \<Rightarrow> string" where
  "path_stem n =
     (if CHR ''.'' \<in> set n then
        (let i = length n - 1 - length (takeWhile (\<lambda>c. c \<noteq> CHR ''.'') (rev n))
         in if 0 < i \<and> i < length n - 1 then take i n else n)
      else n)"

fun obj_stem :: "pyobj \<Rightarrow> exn + string" where
  "obj_stem (PathObj n) = Inr (path_stem n)"
| "obj_stem (StrObj s) = Inl (AttributeError ''str object has no attribute stem'')"

section \<open>The pipelines\<close>

text \<open>
  The table decoders are outside the program: \<open>'c\<close> is what they read (a path or the
  bytes of an object), \<open>'d\<close> the column-to-type mapping given at construction.
\<close>

record ('c, 'd) decoders =
  read_csv :: "'c \<Rightarrow> 'd option \<Rightarrow> exn + table"
  read_json :: "'c \<Rightarrow> exn + table"
  read_parquet :: "'c \<Rightarrow> exn + table"

text \<open>The dispatch on the extension, as both \<open>__call__\<close> methods write it.\<close>

definition decode :: "('c, 'd) decoders \<Rightarrow> 'd option \<Rightarrow> pyobj \<Rightarrow> 'c \<Rightarrow> exn + table" where
  "decode dec dts ref src =
     and_then (obj_endswith ref ''.csv'') (\<lambda>is_csv.
       if is_csv then
         (case dts of
            Some d \<Rightarrow> read_csv dec src (Some d)
          | None \<Rightarrow> read_csv dec src None)
       else
         and_then (obj_endswith ref ''.json'') (\<lambda>is_json.
           if is_json then read_json dec src
           else
             and_then (obj_endswith ref ''.parquet'') (\<lambda>is_parquet.
               if is_parquet then read_parquet dec src
               else Inl (ValueError ''Unsupported file type''))))"

text \<open>
  A run returns the dictionary or raises, and prints lines on the way. The dictionary
  is an association list in insertion order; \<open>dfs[k] = df\<close> is \<^const>\<open>AList.update\<close>.
\<close>

type_synonym run = "(exn + (string \<times> table) list) \<times> string list"

subsection \<open>\<open>LocalDataWrangler\<close>\<close>

text \<open>
  \<open>sorted(self.directory.glob('*.csv'))\<close>: the entries of the directory whose name
  matches the pattern, as paths, in the order of their names.
\<close>

definition glob_csv :: "string list \<Rightarrow> string list" where
  "glob_csv entries = filter (\<lambda>n. endswith n ''.csv'') entries"

definition sorted_glob :: "string list \<Rightarrow> pyobj list" where
  "sorted_glob entries = map PathObj (sort (glob_csv entries))"

definition local_try ::
  "casing \<Rightarrow> (pyobj, 'd) decoders \<Rightarrow> 'd option \<Rightarrow> pyobj \<Rightarrow> exn + string \<times> table" where
  "local_try u dec dts file_path =
     and_then (decode dec dts file_path file_path) (\<lambda>df_raw.
       and_then (clean_table u df_raw) (\<lambda>df.
         and_then (obj_stem file_path) (\<lambda>stem. Inr (stem, df))))"

fun local_loop ::
  "casing \<Rightarrow> (pyobj, 'd) decoders \<Rightarrow> 'd option \<Rightarrow> pyobj list \<Rightarrow> (string \<times> table) list \<Rightarrow>
     string list \<Rightarrow> run"
where
  "local_loop u dec dts [] dfs out = (Inr dfs, out)"
| "local_loop u dec dts (file_path # rest) dfs out =
     (case local_try u dec dts file_path of
        Inr (stem, df) \<Rightarrow> local_loop u dec dts rest (AList.update stem df dfs) out
      | Inl e \<Rightarrow>
          (case obj_name file_path of
             Inl e' \<Rightarrow> (Inl e', out)
           | Inr name \<Rightarrow>
               local_loop u dec dts rest dfs
                 (out @ [''Error processing '' @ name @ '': '' @ str_of_exn e])))"

definition local_call ::
  "casing \<Rightarrow> string list \<Rightarrow> (pyobj, 'd) decoders \<Rightarrow> 'd option \<Rightarrow> run" where
  "local_call u entries dec dts = local_loop u dec dts (sorted_glob entries) [] []"

text \<open>\<open>file.rsplit('.', 1)\<close>\<close>

definition rsplit_dot :: "string \<Rightarrow> string list" where
  "rsplit_dot s =
     (if CHR ''.'' \<in> set s then
        [rev (tl (dropWhile (\<lambda>c. c \<noteq> CHR ''.'') (rev s))),
         rev (takeWhile (\<lambda>c. c \<noteq> CHR ''.'') (rev s))]
      else [s])"

definition local_get_filenames ::
  "casing \<Rightarrow> string list \<Rightarrow> exn + (pystr \<times> string) list" where
  "local_get_filenames u entries =
     and_then (map_exn obj_stem (sorted_glob entries)) (\<lambda>filenames.
       and_then
         (map_exn (\<lambda>file. and_then (item (rsplit_dot file) 1) (\<lambda>s. Inr (lower u (str s))))
            filenames)
         (\<lambda>df_names. Inr (zip df_names filenames)))"

subsection \<open>\<open>s3DataWrangler\<close>\<close>

text \<open>
  The constructor keeps the keys of the listing that contain a dot. \<open>get\<close> is
  \<open>get_object\<close> followed by the read of the body.
\<close>

definition s3_file_keys :: "string list \<Rightarrow> string list" where
  "s3_file_keys listing = filter (\<lambda>e. CHR ''.'' \<in> set e) listing"

definition s3_try ::
  "casing \<Rightarrow> (string \<Rightarrow> exn + 'c) \<Rightarrow> ('c, 'd) decoders \<Rightarrow> 'd option \<Rightarrow> string \<Rightarrow>
     exn + table" where
  "s3_try u get dec dts file_key =
     and_then (get file_key) (\<lambda>body.
       and_then (decode dec dts (StrObj file_key) body) (\<lambda>df_raw. clean_table u df_raw))"

fun s3_loop ::
  "casing \<Rightarrow> (string \<Rightarrow> exn + 'c) \<Rightarrow> ('c, 'd) decoders \<Rightarrow> 'd option \<Rightarrow> string list \<Rightarrow>
     (string \<times> table) list \<Rightarrow> string list \<Rightarrow> run"
where
  "s3_loop u get dec dts [] dfs out = (Inr dfs, out)"
| "s3_loop u get dec dts (file_key # rest) dfs out =
     (case s3_try u get dec dts file_key of
        Inr df \<Rightarrow> s3_loop u get dec dts rest (AList.update file_key df dfs) (out @ [file_key])
      | Inl e \<Rightarrow>
          (case obj_name (StrObj file_key) of
             Inl e' \<Rightarrow> (Inl e', out)
           | Inr name \<Rightarrow>
               s3_loop u get dec dts rest dfs
                 (out @ [''Error processing '' @ name @ '': '' @ str_of_exn e])))"

definition s3_call ::
  "casing \<Rightarrow> string list \<Rightarrow> (string \<Rightarrow> exn + 'c) \<Rightarrow> ('c, 'd) decoders \<Rightarrow> 'd option \<Rightarrow> run"
where
  "s3_call u listing get dec dts = s3_loop u get dec dts (sort (s3_file_keys listing)) [] []"

text \<open>
  \<open>re.split(r"[./]+", file)\<close>: the pieces between the runs of dots and slashes; a run
  at an end of the string gives an empty piece there. \<open>w\<close> is the piece being read, and
  \<open>insep\<close> holds while a run is being read.
\<close>

fun re_split_from :: "string \<Rightarrow> bool \<Rightarrow> string \<Rightarrow> string list" where
  "re_split_from w insep [] = [w]"
| "re_split_from w insep (c # cs) =
     (if c = CHR ''.'' \<or> c = CHR ''/'' then
        (if insep then re_split_from w True cs else w # re_split_from [] True cs)
      else re_split_from (w @ [c]) False cs)"

definition re_split :: "string \<Rightarrow> string list" where
  "re_split s = re_split_from [] False s"

definition s3_get_filenames :: "string list \<Rightarrow> exn + (string \<times> string) list" where
  "s3_get_filenames listing =
     (let filenames = s3_file_keys listing in
      and_then (map_exn (\<lambda>file. item (re_split file) 2) filenames)
        (\<lambda>df_names. Inr (zip df_names filenames)))"

section \<open>The schema generator\<close>

text \<open>
  The schema is a Python dictionary, an association list in insertion order, of JSON
  values. The file system maps a path to the document written there; \<open>can_open\<close> says
  whether \<open>open(filepath, 'w')\<close> succeeds.
\<close>

datatype json = JString string | JArray "json list" | JObject "(string \<times> json) list"

definition set_property :: "(string \<times> json) list \<Rightarrow> string \<Rightarrow> (string \<times> json) list" where
  "set_property schema feature =
     (case map_of schema ''properties'' of
        Some (JObject props) \<Rightarrow>
          AList.update ''properties''
            (JObject (AList.update feature (JObject [(''type'', JString ''number'')]) props)) schema
      | _ \<Rightarrow> schema)"

fun add_properties :: "string list \<Rightarrow> (string \<times> json) list \<Rightarrow> (string \<times> json) list" where
  "add_properties [] schema = schema"
| "add_properties (feature # rest) schema = add_properties rest (set_property schema feature)"

definition build_schema :: "string list \<Rightarrow> (string \<times> json) list" where
  "build_schema features =
     add_properties features
       [(''$schema'', JString ''http://json-schema.org/draft-07/schema#''),
        (''title'', JString ''Generated schema for Root''),
        (''type'', JString ''object''),
        (''properties'', JObject []),
        (''required'', JArray (map JString features))]"

definition schema_call ::
  "string list \<Rightarrow> string \<Rightarrow> (string \<Rightarrow> bool) \<Rightarrow> (string \<rightharpoonup> json) \<Rightarrow>
     (exn + unit) \<times> (string \<rightharpoonup> json) \<times> string list" where
  "schema_call features filepath can_open fs =
     (let schema = build_schema features in
      if can_open filepath then
        (Inr (), fs(filepath \<mapsto> JObject schema),
         [''JSON schema has been saved to '' @ filepath])
      else (Inl (Failure ''cannot open file''), fs, []))"

section \<open>Describing the normalized table\<close>

text \<open>
  What follows describes results and is no part of the program. The text pass makes of
  a string in an \<open>object\<close> column the stripped, lower-cased string, of a number there
  \<open>nan\<close>, and leaves the missing values and the cells of the other columns.
\<close>

definition text_cell :: "casing \<Rightarrow> cell \<Rightarrow> cell" where
  "text_cell u c = str_map (lower u) (str_map strip c)"

definition text_row :: "casing \<Rightarrow> dtype list \<Rightarrow> cell list \<Rightarrow> cell list" where
  "text_row u ds r = map (\<lambda>(d, c). if d = ObjectDtype then text_cell u c else c) (zip ds r)"

definition text_at :: "casing \<Rightarrow> nat \<Rightarrow> cell list \<Rightarrow> cell list" where
  "text_at u j r = r[j := text_cell u (r ! j)]"

definition text_rows :: "casing \<Rightarrow> table \<Rightarrow> cell list list" where
  "text_rows u t = map (text_row u (dtypes t)) (rows t)"

text \<open>The loop of \<open>_clean_dataframe\<close> on the table that the reference \<open>df\<close> holds.\<close>

fun table_loop :: "casing \<Rightarrow> label list \<Rightarrow> table \<Rightarrow> exn option \<times> table" where
  "table_loop u [] t = (None, t)"
| "table_loop u (col # cols) t =
     (case and_then (and_then (getitem t col) str_strip) (str_lower u) of
        Inl e \<Rightarrow> (Some e, t)
      | Inr vals \<Rightarrow> table_loop u cols (setitem t col vals))"

text \<open>
  Row \<open>i\<close> of \<open>rs\<close> repeats an earlier row; the positions of the rows that do, and of
  those that do not, in increasing order.
\<close>

definition is_repeat :: "'a list \<Rightarrow> nat \<Rightarrow> bool" where
  "is_repeat rs i = list_ex (\<lambda>j. rs ! j = rs ! i) [0..<i]"

definition repeats :: "'a list \<Rightarrow> nat list" where
  "repeats rs = filter (is_repeat rs) [0..<length rs]"

definition firsts :: "'a list \<Rightarrow> nat list" where
  "firsts rs = filter (\<lambda>i. \<not> is_repeat rs i) [0..<length rs]"

text \<open>
  The rows as \<open>duplicated\<close> compares them after the text pass, and the positions of the
  rows that the normalization keeps.
\<close>

definition compared_rows :: "casing \<Rightarrow> table \<Rightarrow> cell list list" where
  "compared_rows u t = map (row_key (length (columns t))) (text_rows u t)"

definition kept :: "casing \<Rightarrow> table \<Rightarrow> nat list" where
  "kept u t = (if columns t = [] then [0..<length (rows t)] else firsts (compared_rows u t))"

text \<open>\<open>s\<close> neither starts nor ends with white space.\<close>

definition stripped :: "pystr \<Rightarrow> bool" where
  "stripped s = (s = [] \<or> (\<not> isspace (hd s) \<and> \<not> isspace (last s)))"

text \<open>
  A name with E acute, sharp s and a no-break space before \<open>unit price (USD)\<close>, and
  what the transformation makes of it.
\<close>

definition accent_name :: pystr where
  "accent_name = [0xE9, 0xDF, 0xA0] @ str '' unit   price (USD) ''"

definition accent_upper :: pystr where
  "accent_upper = [0xC9] @ str ''SS_UNIT_PRICE''"

text \<open>Tables to run the normalization on.\<close>

definition sales_table :: table where
  "sales_table =
     \<lparr>columns = [Name (str ''City  Name''), Name (str ''Unit Price (USD)'')],
      dtypes = [ObjectDtype, OtherDtype ''int64''],
      row_index = [0, 1, 2, 3, 4],
      rows = [[Str (str '' Oslo ''), Num 5], [Str (str ''oslo''), Num 5], [Num 7, Num 5],
              [NoneVal, Num 5], [Str (str ''Rome''), Num 2]]\<rparr>"

definition sales_cleaned :: table where
  "sales_cleaned =
     \<lparr>columns = [Name (str ''CITY_NAME''), Name (str ''UNIT_PRICE'')],
      dtypes = [ObjectDtype, OtherDtype ''int64''],
      row_index = [0, 1, 2],
      rows = [[Str (str ''oslo''), Num 5], [NaN, Num 5], [Str (str ''rome''), Num 2]]\<rparr>"

definition city_table :: table where
  "city_table =
     \<lparr>columns = [Name (str ''city'')], dtypes = [ObjectDtype], row_index = [0, 1],
      rows = [[Str (str ''A'')], [Str (str ''a'')]]\<rparr>"

text \<open>One text column: E with acute in both cases, a number and \<open>None\<close>.\<close>

definition accent_table :: table where
  "accent_table =
     \<lparr>columns = [Name (str ''mark'')], dtypes = [ObjectDtype], row_index = [0, 1, 2, 3],
      rows = [[Str [0xC9]], [Str [0xE9]], [Num 7], [NoneVal]]\<rparr>"

definition accent_cleaned :: table where
  "accent_cleaned =
     \<lparr>columns = [Name (str ''MARK'')], dtypes = [ObjectDtype], row_index = [0, 1, 2],
      rows = [[Str [0xE9]], [NaN], [NoneVal]]\<rparr>"

text \<open>An \<open>object\<close> column that holds numbers only.\<close>

definition code_table :: table where
  "code_table =
     \<lparr>columns = [Name (str ''code'')], dtypes = [ObjectDtype], row_index = [0, 1],
      rows = [[Num 1], [Num 2]]\<rparr>"

text \<open>
  An \<open>object\<close> column with the double-struck capital C between two spaces, and a text
  column of the dtype \<open>string\<close>.
\<close>

definition glyph_table :: table where
  "glyph_table =
     \<lparr>columns = [Name (str ''sym''), Name (str ''tag'')],
      dtypes = [ObjectDtype, OtherDtype ''string''],
      row_index = [0],
      rows = [[Str [32, 0x2102, 32], Str (str '' A '')]]\<rparr>"

definition glyph_cleaned :: table where
  "glyph_cleaned =
     \<lparr>columns = [Name (str ''SYM''), Name (str ''TAG'')],
      dtypes = [ObjectDtype, OtherDtype ''string''],
      row_index = [0],
      rows = [[Str [0x2102], Str (str '' A '')]]\<rparr>"

section \<open>Properties of the column-name transformation\<close>

lemma isspace_simps [simp]: "\<not> isspace 40" "\<not> isspace 41" "isspace 32" "\<not> isspace 95"
  by (simp_all add: isspace_def)

lemma match_paren_set: "match_paren s = Some v \<Longrightarrow> set v \<subseteq> set s"
proof -
  assume m: "match_paren s = Some v"
  then obtain t where t: "dropWhile isspace s = 40 # t"
    by (auto simp: match_paren_def split: list.splits if_splits)
  with m obtain d where d: "dropWhile (\<lambda>x. x \<noteq> 41) t = d # v"
    by (auto simp: match_paren_def split: list.splits)
  have "set (d # v) \<subseteq> set t" unfolding d [symmetric] by (auto dest: set_dropWhileD)
  moreover have "set (40 # t) \<subseteq> set s" unfolding t [symmetric] by (auto dest: set_dropWhileD)
  ultimately show ?thesis by auto
qed

lemma set_re_sub_paren: "set (re_sub_paren s) \<subseteq> set s"
proof (induction s rule: re_sub_paren.induct)
  case 1 show ?case by simp
next
  case (2 c cs)
  show ?case
  proof (cases "match_paren (c # cs)")
    case None with 2 show ?thesis by auto
  next
    case (Some v)
    with 2 have "set (re_sub_paren v) \<subseteq> set v" by simp
    with match_paren_set [OF Some] Some show ?thesis by auto
  qed
qed

lemma match_paren_open_None: "match_paren (40 # cs) = None \<Longrightarrow> 41 \<notin> set cs"
  by (auto simp: match_paren_def dropWhile_eq_Nil_conv split: list.splits)

lemma no_span_re_sub_paren: "no_span (re_sub_paren s)"
proof (induction s rule: re_sub_paren.induct)
  case 1 show ?case by simp
next
  case (2 c cs)
  show ?case
  proof (cases "match_paren (c # cs)")
    case None
    with 2 have ih: "no_span (re_sub_paren cs)" by simp
    have "c = 40 \<Longrightarrow> 41 \<notin> set (re_sub_paren cs)"
      using None match_paren_open_None set_re_sub_paren by blast
    with ih None show ?thesis by simp
  next
    case (Some v)
    with 2 show ?thesis by simp
  qed
qed

lemma no_span_append_iff:
  "no_span (xs @ ys) = (no_span xs \<and> no_span ys \<and> (40 \<in> set xs \<longrightarrow> 41 \<notin> set ys))"
  by (induction xs) auto

lemma no_span_append: "no_span (xs @ ys) \<Longrightarrow> no_span xs \<and> no_span ys"
  by (simp add: no_span_append_iff)

lemma no_span_no_open: "40 \<notin> set s \<Longrightarrow> no_span s"
  by (induction s) auto

lemma no_span_dropWhile: "no_span s \<Longrightarrow> no_span (dropWhile P s)"
  using no_span_append [of "takeWhile P s" "dropWhile P s"] by simp

lemma no_span_match_None: "no_span s \<Longrightarrow> match_paren s = None"
proof -
  assume ns: "no_span s"
  show ?thesis
  proof (cases "dropWhile isspace s")
    case Nil then show ?thesis unfolding match_paren_def by (simp only: list.case)
  next
    case (Cons c t)
    from no_span_dropWhile [OF ns, of isspace] Cons have cs: "no_span (c # t)" by simp
    show ?thesis
    proof (cases "c = 40")
      case True
      with cs have "dropWhile (\<lambda>x. x \<noteq> 41) t = []"
        by (auto simp: dropWhile_eq_Nil_conv)
      with True show ?thesis unfolding match_paren_def Cons by (simp only: list.case if_cancel)
    next
      case False
      then show ?thesis unfolding match_paren_def Cons by (simp only: list.case if_False)
    qed
  qed
qed

lemma re_sub_paren_no_span: "no_span s \<Longrightarrow> re_sub_paren s = s"
proof (induction s)
  case Nil show ?case by simp
next
  case (Cons c cs)
  from Cons.prems have "match_paren (c # cs) = None" by (rule no_span_match_None)
  moreover from Cons have "re_sub_paren cs = cs" by simp
  ultimately show ?case by simp
qed

lemma rstrip_decomp: "t = rstrip t @ rev (takeWhile isspace (rev t))"
  unfolding rstrip_def by (metis rev_append rev_rev_ident takeWhile_dropWhile_id)

lemma strip_decomp: "\<exists>a b. s = a @ strip s @ b"
proof -
  have 1: "s = takeWhile isspace s @ lstrip s" by (simp add: lstrip_def)
  have 2: "lstrip s = strip s @ rev (takeWhile isspace (rev (lstrip s)))"
    unfolding strip_def by (rule rstrip_decomp)
  from 1 2 show ?thesis by metis
qed

lemma set_strip: "set (strip s) \<subseteq> set s"
  using strip_decomp [of s] by (metis Un_upper1 Un_upper2 set_append subset_trans)

lemma no_span_strip: "no_span s \<Longrightarrow> no_span (strip s)"
  using strip_decomp [of s] by (metis no_span_append)

lemma strip_no_space: "\<forall>c\<in>set s. \<not> isspace c \<Longrightarrow> strip s = s"
proof -
  assume a: "\<forall>c\<in>set s. \<not> isspace c"
  then have "lstrip s = s" by (cases s) (auto simp: lstrip_def)
  moreover from a have "rstrip s = s" by (cases "rev s") (auto simp: rstrip_def)
  ultimately show ?thesis by (simp add: strip_def)
qed

lemma split_from_no_space:
  "\<forall>c\<in>set s. \<not> isspace c \<Longrightarrow> split_from w s = (if w @ s = [] then [] else [w @ s])"
  by (induction s arbitrary: w) auto

lemma collapse_name_no_space: "\<forall>c\<in>set s. \<not> isspace c \<Longrightarrow> collapse_name s = s"
  by (simp add: collapse_name_def strip_no_space split_def split_from_no_space)

lemma split_from_words:
  "v \<in> set (split_from w s) \<Longrightarrow> \<forall>c\<in>set w. \<not> isspace c \<Longrightarrow> c \<in> set v \<Longrightarrow> \<not> isspace c"
proof (induction s arbitrary: w)
  case Nil then show ?case by (auto split: if_splits)
next
  case (Cons a s)
  show ?case
  proof (cases "isspace a")
    case True
    with Cons.prems(1) have "v = w \<or> v \<in> set (split_from [] s)" by (auto split: if_splits)
    then show ?thesis
    proof
      assume "v = w" with Cons.prems show ?thesis by simp
    next
      assume "v \<in> set (split_from [] s)"
      from Cons.IH [OF this _ Cons.prems(3)] show ?thesis by simp
    qed
  next
    case False
    with Cons.prems(1) have "v \<in> set (split_from (w @ [a]) s)" by simp
    from Cons.IH [OF this _ Cons.prems(3)] False Cons.prems(2) show ?thesis by simp
  qed
qed

lemma set_join: "set (join sep ws) \<subseteq> set sep \<union> \<Union> (set ` set ws)"
  by (induction sep ws rule: join.induct) auto

lemma collapse_name_spaces: "c \<in> set (collapse_name s) \<Longrightarrow> isspace c \<Longrightarrow> c = 32"
proof -
  assume c: "c \<in> set (collapse_name s)" and sp: "isspace c"
  from c set_join have "c \<in> set [32] \<union> \<Union> (set ` set (split (strip s)))"
    unfolding collapse_name_def by blast
  moreover have "\<forall>v\<in>set (split (strip s)). \<forall>c\<in>set v. \<not> isspace c"
    unfolding split_def using split_from_words [of _ "[]"] by auto
  ultimately show ?thesis using sp by auto
qed

lemma unparen_collapse_spaces:
  assumes "c \<in> set (unparen_name (collapse_name x))" "isspace c"
  shows "c = 32"
proof -
  from assms(1) set_re_sub_paren have "c \<in> set (collapse_name x)"
    unfolding unparen_name_def by blast
  then show ?thesis using assms(2) by (rule collapse_name_spaces)
qed

subsection \<open>The upper-case mapping\<close>

lemma casing_upper_ascii:
  "python_casing u \<Longrightarrow> c < 128 \<Longrightarrow> upper_of u c = [if 97 \<le> c \<and> c \<le> 122 then c - 32 else c]"
  unfolding python_casing_def by blast

lemma casing_upper_space: "python_casing u \<Longrightarrow> isspace c \<Longrightarrow> upper_of u c = [c]"
  unfolding python_casing_def by blast

lemma casing_upper_out:
  assumes "python_casing u" "d \<in> set (upper_of u c)"
  shows "upper_of u d = [d]" and "isspace d \<Longrightarrow> isspace c" and "128 \<le> c \<Longrightarrow> d \<noteq> 40 \<and> d \<noteq> 41"
  using assms unfolding python_casing_def by blast+

lemma casing_lower_nonempty: "python_casing u \<Longrightarrow> lower_of u c \<noteq> []"
  unfolding python_casing_def by blast

lemma casing_lower_out:
  assumes "python_casing u" "d \<in> set (lower_of u c)"
  shows "lower_of u d = [d]" and "d \<noteq> 0x3A3" and "isspace d \<Longrightarrow> isspace c"
  using assms unfolding python_casing_def by blast+

lemma casing_lower_sigma:
  "python_casing u \<Longrightarrow> lower_of u 0x3C2 = [0x3C2]" "python_casing u \<Longrightarrow> lower_of u 0x3C3 = [0x3C3]"
  unfolding python_casing_def by blast+

lemma upper_of_paren:
  assumes "python_casing u" "d \<in> set (upper_of u c)" "d = 40 \<or> d = 41"
  shows "c = d"
proof (cases "c < 128")
  case True
  from casing_upper_ascii [OF assms(1) True] assms(2)
  have "d = (if 97 \<le> c \<and> c \<le> 122 then c - 32 else c)" by simp
  with assms(3) show ?thesis by (auto split: if_splits)
next
  case False
  with casing_upper_out(3) [OF assms(1,2)] assms(3) show ?thesis by auto
qed

lemma upper_of_fixed_paren: "python_casing u \<Longrightarrow> upper_of u 40 = [40] \<and> upper_of u 41 = [41] \<and> upper_of u 95 = [95]"
  by (simp add: casing_upper_ascii)

lemma set_upper: "d \<in> set (upper u s) \<Longrightarrow> \<exists>c\<in>set s. d \<in> set (upper_of u c)"
  by (auto simp: upper_def)

lemma upper_Cons: "upper u (c # cs) = upper_of u c @ upper u cs"
  by (simp add: upper_def)

lemma no_span_upper:
  assumes pc: "python_casing u"
  shows "no_span s \<Longrightarrow> no_span (upper u s)"
proof (induction s)
  case Nil
  show ?case by (simp add: upper_def)
next
  case (Cons c cs)
  from Cons have ih: "no_span (upper u cs)" by simp
  have one: "no_span (upper_of u c)"
  proof (cases "c = 40")
    case True
    with pc show ?thesis by (simp add: upper_of_fixed_paren)
  next
    case False
    have "40 \<notin> set (upper_of u c)"
    proof
      assume "40 \<in> set (upper_of u c)"
      from upper_of_paren [OF pc this] False show False by simp
    qed
    then show ?thesis by (rule no_span_no_open)
  qed
  have "41 \<notin> set (upper u cs)" if "40 \<in> set (upper_of u c)"
  proof
    assume "41 \<in> set (upper u cs)"
    then obtain c' where c': "c' \<in> set cs" "41 \<in> set (upper_of u c')" using set_upper by blast
    from upper_of_paren [OF pc c'(2)] c'(1) have "41 \<in> set cs" by simp
    moreover from upper_of_paren [OF pc that] have "c = 40" by simp
    with Cons.prems have "41 \<notin> set cs" by simp
    ultimately show False by simp
  qed
  with one ih show ?case by (simp add: upper_Cons no_span_append_iff)
qed

lemma upper_fixed: "\<forall>c\<in>set s. upper_of u c = [c] \<Longrightarrow> upper u s = s"
  by (induction s) (simp_all add: upper_def)

lemma set_replace:
  "c \<in> set (replace old new s) \<Longrightarrow> c = new \<or> (c \<in> set s \<and> c \<noteq> old)"
  by (auto simp: replace_def split: if_splits)

lemma no_span_map:
  assumes f1: "\<And>c. f c = 40 \<Longrightarrow> c = 40" and f2: "\<And>c. f c = 41 \<Longrightarrow> c = 41"
  shows "no_span s \<Longrightarrow> no_span (map f s)"
proof (induction s)
  case Nil show ?case by simp
next
  case (Cons c cs)
  have "41 \<notin> f ` set cs" if "f c = 40"
  proof
    assume "41 \<in> f ` set cs"
    then obtain x where x: "x \<in> set cs" "f x = 41" by auto
    from f2 [OF x(2)] x(1) have "41 \<in> set cs" by simp
    moreover from f1 [OF that] Cons.prems have "41 \<notin> set cs" by simp
    ultimately show False by simp
  qed
  with Cons show ?case by simp
qed

lemma no_span_replace: "no_span s \<Longrightarrow> no_span (replace 32 95 s)"
  unfolding replace_def
proof (rule no_span_map)
  fix c :: nat
  show "(if c = 32 then 95 else c) = 40 \<Longrightarrow> c = 40" by (cases "c = 32") simp_all
next
  fix c :: nat
  show "(if c = 32 then 95 else c) = 41 \<Longrightarrow> c = 41" by (cases "c = 32") simp_all
qed

lemma snake_name_fixed:
  assumes "\<forall>c\<in>set s. \<not> isspace c" "\<forall>c\<in>set s. upper_of u c = [c]"
  shows "snake_name u s = s"
proof -
  have "upper u s = s" using assms(2) by (rule upper_fixed)
  moreover from assms(1) have "strip s = s" by (rule strip_no_space)
  moreover have "replace 32 95 s = s"
    unfolding replace_def by (rule map_idI) (use assms(1) in auto)
  ultimately show ?thesis by (simp add: snake_name_def)
qed

lemma snake_name_chars:
  assumes pc: "python_casing u"
    and sp: "\<And>c. c \<in> set s \<Longrightarrow> isspace c \<Longrightarrow> c = 32"
    and c: "c \<in> set (snake_name u s)"
  shows "\<not> isspace c" and "upper_of u c = [c]"
proof -
  from c have alt: "c = 95 \<or> (c \<in> set (strip (upper u s)) \<and> c \<noteq> 32)"
    unfolding snake_name_def by (rule set_replace)
  from alt show "\<not> isspace c"
  proof
    assume "c = 95" then show ?thesis by simp
  next
    assume a: "c \<in> set (strip (upper u s)) \<and> c \<noteq> 32"
    with set_strip have "c \<in> set (upper u s)" by blast
    then obtain d where d: "d \<in> set s" "c \<in> set (upper_of u d)" using set_upper by blast
    show ?thesis
    proof
      assume "isspace c"
      with casing_upper_out(2) [OF pc d(2)] have "isspace d" by simp
      with sp d(1) have "d = 32" by simp
      with d(2) pc have "c = 32" by (simp add: casing_upper_ascii)
      with a show False by simp
    qed
  qed
  from alt show "upper_of u c = [c]"
  proof
    assume "c = 95" with pc show ?thesis by (simp add: upper_of_fixed_paren)
  next
    assume a: "c \<in> set (strip (upper u s)) \<and> c \<noteq> 32"
    with set_strip have "c \<in> set (upper u s)" by blast
    then obtain d where d: "d \<in> set s" "c \<in> set (upper_of u d)" using set_upper by blast
    from casing_upper_out(1) [OF pc d(2)] show ?thesis .
  qed
qed

lemma transform_props:
  assumes pc: "python_casing u"
  shows "\<forall>c\<in>set (transform u x). \<not> isspace c"
    and "\<forall>c\<in>set (transform u x). upper_of u c = [c]"
    and "no_span (transform u x)"
proof -
  show "\<forall>c\<in>set (transform u x). \<not> isspace c"
    unfolding transform_def using snake_name_chars(1) [OF pc] unparen_collapse_spaces by blast
  show "\<forall>c\<in>set (transform u x). upper_of u c = [c]"
    unfolding transform_def using snake_name_chars(2) [OF pc] unparen_collapse_spaces by blast
  have "no_span (unparen_name (collapse_name x))"
    by (simp add: unparen_name_def no_span_re_sub_paren)
  then have "no_span (upper u (unparen_name (collapse_name x)))" by (rule no_span_upper [OF pc])
  then have "no_span (strip (upper u (unparen_name (collapse_name x))))" by (rule no_span_strip)
  then show "no_span (transform u x)"
    unfolding transform_def snake_name_def by (rule no_span_replace)
qed

lemma transform_fixed:
  assumes "\<forall>c\<in>set r. \<not> isspace c" "\<forall>c\<in>set r. upper_of u c = [c]" "no_span r"
  shows "transform u r = r"
proof -
  have "collapse_name r = r" using assms(1) by (rule collapse_name_no_space)
  moreover have "unparen_name r = r"
    unfolding unparen_name_def using assms(3) by (rule re_sub_paren_no_span)
  moreover have "snake_name u r = r" using assms(1,2) by (rule snake_name_fixed)
  ultimately show ?thesis by (simp add: transform_def)
qed

subsection \<open>The sample mappings\<close>

lemma sample_upper_of:
  "upper_of sample c =
     (if 97 \<le> c \<and> c \<le> 122 then [c - 32] else if c = 0xE9 then [0xC9]
      else if c = 0xDF then [83, 83] else if c = 0x3C2 \<or> c = 0x3C3 then [0x3A3] else [c])"
  by (simp add: sample_def)

lemma sample_lower_of:
  "lower_of sample c =
     (if 65 \<le> c \<and> c \<le> 90 then [c + 32] else if c = 0xC9 then [0xE9]
      else if c = 0x3A3 then [0x3C3] else [c])"
  by (simp add: sample_def)

lemma python_casing_sample: "python_casing sample"
proof -
  have 1: "\<forall>c<128. upper_of sample c = [if 97 \<le> c \<and> c \<le> 122 then c - 32 else c]"
    by (simp add: sample_upper_of)
  have 2: "\<forall>c. isspace c \<longrightarrow> upper_of sample c = [c]"
    by (auto simp: sample_upper_of isspace_def)
  have 3: "\<forall>c. \<forall>d\<in>set (upper_of sample c).
          upper_of sample d = [d] \<and> (isspace d \<longrightarrow> isspace c) \<and> (128 \<le> c \<longrightarrow> d \<noteq> 40 \<and> d \<noteq> 41)"
  proof (intro allI ballI)
    fix c d
    assume d: "d \<in> set (upper_of sample c)"
    consider "97 \<le> c \<and> c \<le> 122" "d = c - 32" | "c = 0xE9" "d = 0xC9" | "c = 0xDF" "d = 83"
      | "c = 0x3C2 \<or> c = 0x3C3" "d = 0x3A3"
      | "\<not> (97 \<le> c \<and> c \<le> 122)" "c \<noteq> 0xE9" "c \<noteq> 0xDF" "c \<noteq> 0x3C2" "c \<noteq> 0x3C3" "d = c"
      using d unfolding sample_upper_of by (auto split: if_splits)
    then show "upper_of sample d = [d] \<and> (isspace d \<longrightarrow> isspace c) \<and> (128 \<le> c \<longrightarrow> d \<noteq> 40 \<and> d \<noteq> 41)"
    proof cases
      case 1
      then have "65 \<le> d \<and> d \<le> 90" by arith
      with 1 show ?thesis by (simp add: sample_upper_of isspace_def)
    next
      case 2 then show ?thesis by (simp add: sample_upper_of isspace_def)
    next
      case 3 then show ?thesis by (simp add: sample_upper_of isspace_def)
    next
      case 4 then show ?thesis by (auto simp: sample_upper_of isspace_def)
    next
      case 5 then show ?thesis by (auto simp: sample_upper_of)
    qed
  qed
  have 4: "\<forall>c. lower_of sample c \<noteq> []" by (simp add: sample_lower_of)
  have 5: "\<forall>c. \<forall>d\<in>set (lower_of sample c).
          lower_of sample d = [d] \<and> d \<noteq> 0x3A3 \<and> (isspace d \<longrightarrow> isspace c)"
  proof (intro allI ballI)
    fix c d
    assume d: "d \<in> set (lower_of sample c)"
    consider "65 \<le> c \<and> c \<le> 90" "d = c + 32" | "c = 0xC9" "d = 0xE9" | "c = 0x3A3" "d = 0x3C3"
      | "\<not> (65 \<le> c \<and> c \<le> 90)" "c \<noteq> 0xC9" "c \<noteq> 0x3A3" "d = c"
      using d unfolding sample_lower_of by (auto split: if_splits)
    then show "lower_of sample d = [d] \<and> d \<noteq> 0x3A3 \<and> (isspace d \<longrightarrow> isspace c)"
    proof cases
      case 1
      then have "97 \<le> d \<and> d \<le> 122" by arith
      with 1 show ?thesis by (simp add: sample_lower_of isspace_def)
    next
      case 2 then show ?thesis by (simp add: sample_lower_of isspace_def)
    next
      case 3 then show ?thesis by (simp add: sample_lower_of isspace_def)
    next
      case 4 then show ?thesis by (simp add: sample_lower_of)
    qed
  qed
  have 6: "lower_of sample 0x3C2 = [0x3C2]" "lower_of sample 0x3C3 = [0x3C3]"
    by (simp_all add: sample_lower_of)
  from 1 2 3 4 5 6 show ?thesis unfolding python_casing_def by (intro conjI)
qed

lemma upper_ascii:
  assumes "python_casing u" "\<forall>c\<in>set s. c < 128"
  shows "upper u s = map (\<lambda>c. if 97 \<le> c \<and> c \<le> 122 then c - 32 else c) s"
  using assms(2) by (induction s) (simp_all add: upper_def casing_upper_ascii [OF assms(1)])

lemma transform_unit_price:
  assumes "python_casing u"
  shows "transform u (str ''Unit Price (USD)'') = str ''UNIT_PRICE''"
proof -
  have 1: "unparen_name (collapse_name (str ''Unit Price (USD)'')) = str ''Unit Price''"
    by code_simp
  have 2: "\<forall>c\<in>set (str ''Unit Price''). c < 128" by code_simp
  have 3: "replace 32 95 (strip (map (\<lambda>c. if 97 \<le> c \<and> c \<le> 122 then c - 32 else c) (str ''Unit Price'')))
      = str ''UNIT_PRICE''" by code_simp
  show ?thesis
    unfolding transform_def snake_name_def 1 upper_ascii [OF assms 2] by (rule 3)
qed

lemma match_paren_sub: "match_paren s = Some v \<Longrightarrow> re_sub_paren s = re_sub_paren v"
  by (cases s) (simp_all add: match_paren_def)

lemma match_paren_span:
  assumes "\<forall>c\<in>set ws. isspace c" "41 \<notin> set mid"
  shows "match_paren (ws @ 40 # mid @ 41 # post) = Some post"
proof -
  from assms(1) have "dropWhile isspace (ws @ 40 # mid @ 41 # post) = 40 # mid @ 41 # post"
    by (simp add: dropWhile_append2)
  moreover from assms(2) have "dropWhile (\<lambda>x. x \<noteq> 41) (mid @ 41 # post) = 41 # post"
    by (induction mid) auto
  ultimately show ?thesis by (simp add: match_paren_def)
qed

lemma match_paren_text:
  assumes "pre \<noteq> []" "\<not> isspace (last pre)" "40 \<notin> set pre"
  shows "match_paren (pre @ rest) = None"
proof -
  have "last pre \<in> set pre" using assms(1) by simp
  with assms(2) have "dropWhile isspace pre \<noteq> []" by (auto simp: dropWhile_eq_Nil_conv)
  then obtain c t where ct: "dropWhile isspace pre = c # t" by (cases "dropWhile isspace pre") auto
  then have "c \<in> set pre" by (metis list.set_intros(1) set_dropWhileD)
  with assms(3) have c: "c \<noteq> 40" by auto
  have "dropWhile isspace (pre @ rest) = dropWhile isspace pre @ rest"
  proof (rule dropWhile_append1)
    show "last pre \<in> set pre" by fact
    show "\<not> isspace (last pre)" by fact
  qed
  with ct c show ?thesis by (simp add: match_paren_def)
qed

lemma re_sub_paren_span:
  assumes "40 \<notin> set pre" "pre = [] \<or> \<not> isspace (last pre)"
    and "\<forall>c\<in>set ws. isspace c" "41 \<notin> set mid"
  shows "re_sub_paren (pre @ ws @ 40 # mid @ 41 # post) = pre @ re_sub_paren post"
  using assms(1,2)
proof (induction pre)
  case Nil
  from match_paren_span [OF assms(3,4)] show ?case by (simp add: match_paren_sub)
next
  case (Cons p ps)
  from Cons.prems have "match_paren ((p # ps) @ ws @ 40 # mid @ 41 # post) = None"
    by (intro match_paren_text) auto
  moreover from Cons.prems have "ps = [] \<or> \<not> isspace (last ps)" by (auto split: if_splits)
  with Cons have "re_sub_paren (ps @ ws @ 40 # mid @ 41 # post) = ps @ re_sub_paren post"
    by simp
  ultimately show ?case by simp
qed

lemma clean_column_names_names:
  "clean_column_names u (map Name xs) = Inr (map (transform u) xs)"
proof -
  have "map_exn collapse_label (map Name xs) = Inr (map collapse_name xs)"
    by (induction xs) simp_all
  then show ?thesis
    by (simp add: clean_column_names_def and_then_def transform_def)
qed

text \<open>
  C4. The column-name transformation is idempotent: transforming a transformed name
  gives the same name, for every string and for case mappings with the facts of
  \<open>python_casing\<close>. A transformed name holds no white space, no code point that the
  upper-casing changes and no parenthesized span, so that each of the three stages
  leaves it as it is. On a list of names, \<open>_clean_column_names\<close> transforms each name,
  and applied to its own result it returns that result.
\<close>

theorem transform_idempotent:
  assumes "python_casing u"
  shows "transform u (transform u x) = transform u x \<and>
         clean_column_names u (map Name xs) = Inr (map (transform u) xs) \<and>
         clean_column_names u (map Name (map (transform u) xs)) = Inr (map (transform u) xs)"
proof -
  have idem: "transform u (transform u y) = transform u y" for y
    by (rule transform_fixed) (rule transform_props [OF assms])+
  have "map (transform u) (map (transform u) xs) = map (transform u) xs"
    by (simp add: idem)
  with clean_column_names_names [of u "map (transform u) xs"]
  have "clean_column_names u (map Name (map (transform u) xs)) = Inr (map (transform u) xs)"
    by (simp only:)
  with idem clean_column_names_names [of u xs] show ?thesis by (simp only: simp_thms)
qed

theorem transform_idempotent_witness:
  "python_casing sample \<and>
   transform sample accent_name = accent_upper \<and>
   transform sample accent_upper = accent_upper \<and>
   clean_column_names sample [Name accent_name, Name (str ''a (b) c'')] = Inr [accent_upper, str ''A_C'']"
proof -
  have 1: "transform sample accent_name = accent_upper" by code_simp
  have 2: "transform sample (str ''a (b) c'') = str ''A_C''" by code_simp
  from transform_idempotent [OF python_casing_sample, of accent_name "[accent_name, str ''a (b) c'']"]
  show ?thesis using python_casing_sample by (simp add: 1 2)
qed

text \<open>
  C7, as stated, fails. In the name \<open>a ((b)) c\<close> the span \<open>((b))\<close> is parenthesized,
  and the transformed name still holds its closing parenthesis: the pattern ends a
  span at the first \<open>)\<close>.
\<close>

theorem transform_nested_counterexample:
  "transform sample (str ''a ((b)) c'') = str ''A)_C'' \<and>
   41 \<in> set (transform sample (str ''a ((b)) c''))"
  by code_simp

text \<open>
  C7, amended. The transformation removes the spans that run from a \<open>(\<close> to the next
  \<open>)\<close>, with the white space before them, wherever they stand. For case mappings with
  the facts of \<open>python_casing\<close>, the name \<open>Unit Price (USD)\<close> becomes \<open>UNIT_PRICE\<close> and no
  transformed name holds a \<open>(\<close> with a \<open>)\<close> behind it. The second stage, reading a text
  without \<open>(\<close> that does not end in white space, then white space of any kind, then a
  span from \<open>(\<close> to the next \<open>)\<close>, keeps the text, drops the white space and the span,
  and goes on behind the span.
\<close>

theorem transform_removes_spans:
  assumes "python_casing u"
  shows "transform u (str ''Unit Price (USD)'') = str ''UNIT_PRICE'' \<and>
         no_span (transform u x) \<and>
         (40 \<notin> set pre \<and> (pre = [] \<or> \<not> isspace (last pre)) \<and>
          (\<forall>c\<in>set ws. isspace c) \<and> 41 \<notin> set mid \<longrightarrow>
            unparen_name (pre @ ws @ 40 # mid @ 41 # post) = pre @ unparen_name post)"
proof -
  have "transform u (str ''Unit Price (USD)'') = str ''UNIT_PRICE''"
    using assms by (rule transform_unit_price)
  moreover have "no_span (transform u x)" by (rule transform_props [OF assms])
  ultimately show ?thesis by (simp add: unparen_name_def re_sub_paren_span)
qed

theorem transform_removes_spans_witness:
  "python_casing sample \<and> 40 \<notin> set (str ''Price'') \<and> \<not> isspace (last (str ''Price'')) \<and>
   list_all isspace [0xA0, 32, 0x85] \<and> 41 \<notin> set (str ''USD'') \<and>
   no_span (transform sample (str ''a (b) c (d'')) \<and>
   unparen_name (str ''Price'' @ [0xA0, 32, 0x85] @ 40 # str ''USD'' @ 41 # str '' net'') = str ''Price net''"
proof -
  have u: "unparen_name (str '' net'') = str '' net''" by code_simp
  have a: "40 \<notin> set (str ''Price'')" "\<not> isspace (last (str ''Price''))"
    "list_all isspace [0xA0, 32, 0x85]" "41 \<notin> set (str ''USD'')" "str ''Price'' \<noteq> []"
    "str ''Price'' @ str '' net'' = str ''Price net''"
    by code_simp+
  from a(3) have b: "\<forall>c\<in>set [0xA0, 32, 0x85]. isspace c" by (simp only: list_all_iff)
  from transform_removes_spans [OF python_casing_sample,
      of "str ''a (b) c (d''" "str ''Price''" "[0xA0, 32, 0x85]" "str ''USD''" "str '' net''"]
    a b
  have "no_span (transform sample (str ''a (b) c (d'')) \<and>
    unparen_name (str ''Price'' @ [0xA0, 32, 0x85] @ 40 # str ''USD'' @ 41 # str '' net'') = str ''Price'' @ unparen_name (str '' net'')"
    by blast
  with a u python_casing_sample show ?thesis by (simp only: simp_thms)
qed

section \<open>The pipelines on concrete inputs\<close>

lemma local_try_path:
  "local_try u dec dts (PathObj n) = Inl (AttributeError ''PosixPath object has no attribute endswith'')"
  by (simp add: local_try_def decode_def and_then_def)

lemma local_loop_paths:
  "local_loop u dec dts (map PathObj ns) dfs out =
     (Inr dfs, out @ map (\<lambda>n. ''Error processing '' @ n @ '': PosixPath object has no attribute endswith'') ns)"
  by (induction ns arbitrary: out) (simp_all add: local_try_path)

lemma local_call_empty:
  "local_call u entries dec dts =
     (Inr [], map (\<lambda>n. ''Error processing '' @ n @ '': PosixPath object has no attribute endswith'')
        (sort (glob_csv entries)))"
  by (simp add: local_call_def sorted_glob_def local_loop_paths)

text \<open>
  C2. A directory holds the files \<open>a.csv\<close> and \<open>b.csv\<close>. Whatever the decoders make
  of the two files, also when \<open>a.csv\<close> is valid and \<open>b.csv\<close> is malformed, the local
  run returns the empty dictionary and prints a diagnostic for each of them: the test
  \<open>file_path.endswith('.csv')\<close> raises on a path before any file is read.
\<close>

theorem local_call_two_files:
  "local_call u [''a.csv'', ''b.csv''] dec dts =
     (Inr [],
      [''Error processing a.csv: PosixPath object has no attribute endswith'',
       ''Error processing b.csv: PosixPath object has no attribute endswith''])"
proof -
  have "sort (glob_csv [''a.csv'', ''b.csv'']) = [''a.csv'', ''b.csv'']" by code_simp
  then show ?thesis by (simp add: local_call_empty)
qed

lemma decode_unsupported:
  "\<not> endswith k ''.csv'' \<Longrightarrow> \<not> endswith k ''.json'' \<Longrightarrow> \<not> endswith k ''.parquet'' \<Longrightarrow>
   decode dec dts (StrObj k) body = Inl (ValueError ''Unsupported file type'')"
  by (simp add: decode_def and_then_def)

lemma s3_loop_raises:
  "s3_try u get dec dts k = Inl e \<Longrightarrow>
   s3_loop u get dec dts (k # rest) dfs out = (Inl (AttributeError ''str object has no attribute name''), out)"
  by simp

text \<open>
  C1. A bucket lists the keys \<open>b.csv\<close> and \<open>a.txt\<close>. The remote run takes \<open>a.txt\<close>
  first, which has no supported extension; the handler of the \<open>ValueError\<close> formats its
  diagnostic with \<open>file_key.name\<close>, which a string does not have, and the
  \<open>AttributeError\<close> leaves the run: nothing is printed, no dictionary is returned and
  \<open>b.csv\<close> is never read.
\<close>

theorem s3_call_unsupported_raises:
  "s3_call u [''b.csv'', ''a.txt''] (\<lambda>k. Inr body) dec dts =
     (Inl (AttributeError ''str object has no attribute name''), [])"
proof -
  have keys: "sort (s3_file_keys [''b.csv'', ''a.txt'']) = [''a.txt'', ''b.csv'']" by code_simp
  have "\<not> endswith ''a.txt'' ''.csv''" "\<not> endswith ''a.txt'' ''.json''" "\<not> endswith ''a.txt'' ''.parquet''"
    by code_simp+
  then have "decode dec dts (StrObj ''a.txt'') body = Inl (ValueError ''Unsupported file type'')"
    by (rule decode_unsupported)
  then have "s3_try u (\<lambda>k. Inr body) dec dts ''a.txt'' = Inl (ValueError ''Unsupported file type'')"
    by (simp add: s3_try_def and_then_def)
  then show ?thesis unfolding s3_call_def keys by (rule s3_loop_raises)
qed

text \<open>
  C3. For a directory that holds \<open>a.csv\<close>, and for a bucket that lists the key
  \<open>a.csv\<close>, the listing of the names raises \<open>IndexError\<close>: the stem \<open>a\<close> has no dot to
  split at, and the key splits in two pieces, not three.
\<close>

theorem get_filenames_raises:
  "local_get_filenames u [''a.csv''] = Inl (IndexError ''list index out of range'') \<and>
   s3_get_filenames [''a.csv''] = Inl (IndexError ''list index out of range'')"
  by code_simp

section \<open>Properties of the schema generator\<close>

lemma map_of_set_property:
  assumes "map_of schema ''properties'' = Some (JObject props)"
  shows "map_of (set_property schema f) =
     (map_of schema)(''properties'' \<mapsto> JObject (AList.update f (JObject [(''type'', JString ''number'')]) props))"
  using assms by (simp add: set_property_def AList.update_conv')

lemma map_of_add_properties:
  "map_of schema ''properties'' = Some (JObject props) \<Longrightarrow>
   map_of (add_properties fs schema) =
     (map_of schema)(''properties'' \<mapsto>
        JObject (fold (\<lambda>f. AList.update f (JObject [(''type'', JString ''number'')])) fs props))"
proof (induction fs arbitrary: schema props)
  case Nil
  then show ?case by (auto simp: fun_eq_iff)
next
  case (Cons f fs)
  let ?p = "AList.update f (JObject [(''type'', JString ''number'')]) props"
  have "map_of (set_property schema f) ''properties'' = Some (JObject ?p)"
    by (simp add: map_of_set_property [OF Cons.prems])
  from Cons.IH [OF this] show ?case
    by (auto simp: map_of_set_property [OF Cons.prems] fun_eq_iff)
qed

lemma map_of_fold_update:
  "map_of (fold (\<lambda>f. AList.update f v) fs props) k =
     (if k \<in> set fs then Some v else map_of props k)"
  by (induction fs arbitrary: props) (auto simp: AList.update_conv')

lemma dom_fold_update:
  "fst ` set (fold (\<lambda>f. AList.update f v) fs props) = set fs \<union> fst ` set props"
  by (induction fs arbitrary: props) (auto simp: AList.dom_update)

text \<open>
  C8. For every list of column names the schema has the type \<open>object\<close>, its \<open>required\<close>
  entry is the list of the names in their order, and its \<open>properties\<close> hold exactly the
  listed names, each with \<open>{"type": "number"}\<close>; no data value takes part. For the names
  \<open>age\<close> and \<open>income\<close> the document is the one written out below. Where the file can be
  opened, the call stores this document at the path and prints its message.
\<close>

theorem build_schema_document:
  "map_of (build_schema features) ''type'' = Some (JString ''object'') \<and>
   map_of (build_schema features) ''required'' = Some (JArray (map JString features)) \<and>
   (\<exists>props. map_of (build_schema features) ''properties'' = Some (JObject props) \<and>
      fst ` set props = set features \<and>
      (\<forall>name\<in>set features. map_of props name = Some (JObject [(''type'', JString ''number'')]))) \<and>
   build_schema [''age'', ''income''] =
     [(''$schema'', JString ''http://json-schema.org/draft-07/schema#''),
      (''title'', JString ''Generated schema for Root''),
      (''type'', JString ''object''),
      (''properties'', JObject [(''age'', JObject [(''type'', JString ''number'')]),
                                (''income'', JObject [(''type'', JString ''number'')])]),
      (''required'', JArray [JString ''age'', JString ''income''])] \<and>
   (can_open filepath \<longrightarrow>
      schema_call features filepath can_open fs =
        (Inr (), fs(filepath \<mapsto> JObject (build_schema features)),
         [''JSON schema has been saved to '' @ filepath]))"
proof -
  let ?s0 = "[(''$schema'', JString ''http://json-schema.org/draft-07/schema#''),
        (''title'', JString ''Generated schema for Root''),
        (''type'', JString ''object''),
        (''properties'', JObject []),
        (''required'', JArray (map JString features))]"
  let ?props = "fold (\<lambda>f. AList.update f (JObject [(''type'', JString ''number'')])) features []"
  have p0: "map_of ?s0 ''properties'' = Some (JObject [])" by simp
  have m: "map_of (build_schema features) = (map_of ?s0)(''properties'' \<mapsto> JObject ?props)"
    unfolding build_schema_def by (rule map_of_add_properties [OF p0])
  have 1: "map_of (build_schema features) ''type'' = Some (JString ''object'')"
    unfolding m by simp
  have 2: "map_of (build_schema features) ''required'' = Some (JArray (map JString features))"
    unfolding m by simp
  have 3: "map_of (build_schema features) ''properties'' = Some (JObject ?props)"
    unfolding m by simp
  have 4: "fst ` set ?props = set features" by (simp add: dom_fold_update)
  have 5: "\<forall>name\<in>set features. map_of ?props name = Some (JObject [(''type'', JString ''number'')])"
    by (simp add: map_of_fold_update)
  have 6: "build_schema [''age'', ''income''] =
     [(''$schema'', JString ''http://json-schema.org/draft-07/schema#''),
      (''title'', JString ''Generated schema for Root''),
      (''type'', JString ''object''),
      (''properties'', JObject [(''age'', JObject [(''type'', JString ''number'')]),
                                (''income'', JObject [(''type'', JString ''number'')])]),
      (''required'', JArray [JString ''age'', JString ''income''])]"
    by code_simp
  have 7: "can_open filepath \<longrightarrow>
      schema_call features filepath can_open fs =
        (Inr (), fs(filepath \<mapsto> JObject (build_schema features)),
         [''JSON schema has been saved to '' @ filepath])"
    by (simp add: schema_call_def)
  from 3 4 5 have "\<exists>props. map_of (build_schema features) ''properties'' = Some (JObject props) \<and>
      fst ` set props = set features \<and>
      (\<forall>name\<in>set features. map_of props name = Some (JObject [(''type'', JString ''number'')]))"
    by blast
  with 1 2 6 7 show ?thesis by blast
qed

theorem build_schema_document_witness:
  "map_of (build_schema [''age'', ''income'']) ''required'' = Some (JArray [JString ''age'', JString ''income'']) \<and>
   map_of (build_schema [''age'', ''income'']) ''type'' = Some (JString ''object'') \<and>
   (\<exists>props. map_of (build_schema [''age'', ''income'']) ''properties'' = Some (JObject props) \<and>
      map_of props ''age'' = Some (JObject [(''type'', JString ''number'')]) \<and>
      map_of props ''income'' = Some (JObject [(''type'', JString ''number'')])) \<and>
   schema_call [''age'', ''income''] ''schema.json'' (\<lambda>p. True) Map.empty =
     (Inr (), [''schema.json'' \<mapsto> JObject (build_schema [''age'', ''income''])],
      [''JSON schema has been saved to schema.json''])"
  using build_schema_document [of "[''age'', ''income'']" "\<lambda>p. True" "''schema.json''" Map.empty]
  by auto

subsection \<open>The listings of the names\<close>

text \<open>
  Where \<open>get_filenames\<close> returns, the second components of its pairs are the keys of
  the run: the stems in the order of the sorted paths for the directory, and the keys
  that contain a dot, in the order of the listing, for the bucket.
\<close>

lemma map_exn_Inr_length: "map_exn f xs = Inr ys \<Longrightarrow> length ys = length xs"
  by (induction xs arbitrary: ys) (auto split: sum.splits)

lemma map_exn_obj_stem: "map_exn obj_stem (map PathObj ns) = Inr (map path_stem ns)"
  by (induction ns) simp_all

lemma local_get_filenames_keys:
  "local_get_filenames u entries = Inr ps \<Longrightarrow> map snd ps = map path_stem (sort (glob_csv entries))"
  by (auto simp: local_get_filenames_def sorted_glob_def map_exn_obj_stem and_then_def
      split: sum.splits dest: map_exn_Inr_length)

lemma s3_get_filenames_keys:
  "s3_get_filenames listing = Inr ps \<Longrightarrow> map snd ps = s3_file_keys listing"
  by (auto simp: s3_get_filenames_def Let_def and_then_def split: sum.splits dest: map_exn_Inr_length)

section \<open>Properties of the normalization\<close>

subsection \<open>The store\<close>

lemma str_loop_table_loop:
  "df < length h \<Longrightarrow>
   str_loop u cols df h = (case table_loop u cols (h ! df) of (r, t') \<Rightarrow> (r, h[df := t']))"
proof (induction cols arbitrary: h)
  case Nil
  then show ?case by simp
next
  case (Cons col cols)
  show ?case
  proof (cases "and_then (and_then (getitem (h ! df) col) str_strip) (str_lower u)")
    case (Inl e)
    then show ?thesis by simp
  next
    case (Inr vals)
    let ?h1 = "h[df := setitem (h ! df) col vals]"
    from Cons.prems have "df < length ?h1" by simp
    from Cons.IH [OF this] Cons.prems Inr show ?thesis by simp
  qed
qed

lemma clean_dataframe_eq:
  "clean_dataframe u a h =
     (case table_loop u (object_columns (h ! a)) (h ! a) of
        (Some e, t1) \<Rightarrow> (Inl e, h @ [t1])
      | (None, t1) \<Rightarrow>
          (case clean_column_names u (columns (drop_duplicates t1)) of
             Inl e \<Rightarrow> (Inl e, h @ [drop_duplicates t1])
           | Inr names \<Rightarrow>
               (Inr (length h), h @ [(drop_duplicates t1)\<lparr>columns := map Name names\<rparr>])))"
proof -
  have "length h < length (h @ [h ! a])" by simp
  from str_loop_table_loop [OF this, of u "object_columns (h ! a)"]
  show ?thesis
    by (simp add: clean_dataframe_def copy_def Let_def split: prod.splits option.splits sum.splits)
qed

lemma clean_table_eq:
  "clean_table u t =
     (case table_loop u (object_columns t) t of
        (Some e, t1) \<Rightarrow> Inl e
      | (None, t1) \<Rightarrow>
          (case clean_column_names u (columns (drop_duplicates t1)) of
             Inl e \<Rightarrow> Inl e
           | Inr names \<Rightarrow> Inr ((drop_duplicates t1)\<lparr>columns := map Name names\<rparr>)))"
  by (simp add: clean_table_def clean_dataframe_eq split: prod.splits option.splits sum.splits)

lemma sales_table_clean:
  "wf_table sales_table" "clean_table sample sales_table = Inr sales_cleaned"
  by code_simp+

text \<open>
  C9. A call of \<open>_clean_dataframe\<close> on a reference \<open>a\<close> of the store, whether it
  returns or raises, adds one object to the store and leaves every object that was
  there as it was, the table at \<open>a\<close> among them. When it returns, the reference
  returned is that of the added object, which differs from \<open>a\<close> and holds the
  normalized table. The two classes define the method by the same text.
\<close>

theorem clean_dataframe_frame:
  assumes "clean_dataframe u a h = (r, h')" and "a < length h"
  shows "take (length h) h' = h \<and> length h' = Suc (length h) \<and> h' ! a = h ! a \<and>
         (\<forall>df. r = Inr df \<longrightarrow> df = length h \<and> df \<noteq> a \<and> clean_table u (h ! a) = Inr (h' ! df))"
proof -
  from assms(1) obtain x where x: "h' = h @ [x]"
    by (auto simp: clean_dataframe_eq split: prod.splits option.splits sum.splits)
  have "clean_table u (h ! a) = Inr (h' ! df) \<and> df = length h" if "r = Inr df" for df
    using assms(1) that
    by (auto simp: clean_dataframe_eq clean_table_eq split: prod.splits option.splits sum.splits)
  with x assms(2) show ?thesis by (auto simp: nth_append)
qed

theorem clean_dataframe_frame_witness:
  "clean_dataframe sample 0 [sales_table] = (Inr 1, [sales_table, sales_cleaned]) \<and>
   clean_table sample sales_table = Inr sales_cleaned"
proof -
  have run: "clean_dataframe sample 0 [sales_table] = (Inr 1, [sales_table, sales_cleaned])"
    by code_simp
  have "(0::nat) < length [sales_table]" by simp
  from clean_dataframe_frame [OF run this]
  have "clean_table sample ([sales_table] ! 0) = Inr ([sales_table, sales_cleaned] ! 1)" by simp
  then have "clean_table sample sales_table = Inr sales_cleaned" by simp
  with run show ?thesis by (simp only: simp_thms)
qed

subsection \<open>The text pass\<close>

lemma map_zip_map: "map (\<lambda>(r, v). g r v) (zip xs (map f xs)) = map (\<lambda>r. g r (f r)) xs"
  by (induction xs) simp_all

lemma str_accessor_Inr: "str_accessor vals = Inr vs \<Longrightarrow> vs = vals \<and> infer_dtype vals \<noteq> InferInteger"
  by (simp add: str_accessor_def split: if_splits)

lemma str_strip_Inr:
  "str_strip vals = Inr vs \<Longrightarrow> vs = map (str_map strip) vals \<and> infer_dtype vals \<noteq> InferInteger"
  by (auto simp: str_strip_def and_then_def split: sum.splits dest: str_accessor_Inr)

lemma str_lower_Inr: "str_lower u vals = Inr vs \<Longrightarrow> vs = map (str_map (lower u)) vals"
  by (auto simp: str_lower_def and_then_def split: sum.splits dest: str_accessor_Inr)

lemma getitem_Inr:
  "getitem t col = Inr vals \<Longrightarrow>
   count_list (columns t) col = 1 \<and> vals = map (\<lambda>r. r ! first_pos col (columns t)) (rows t)"
  by (simp add: getitem_def split: if_splits)

lemma column_pass_Inr:
  assumes "and_then (and_then (getitem t col) str_strip) (str_lower u) = Inr vals"
  shows "count_list (columns t) col = 1"
    and "setitem t col vals = t\<lparr>rows := map (text_at u (first_pos col (columns t))) (rows t)\<rparr>"
    and "infer_dtype (map (\<lambda>r. r ! first_pos col (columns t)) (rows t)) \<noteq> InferInteger"
proof -
  from assms obtain v1 v2 where g: "getitem t col = Inr v1" and s: "str_strip v1 = Inr v2"
    and l: "str_lower u v2 = Inr vals"
    by (auto simp: and_then_def split: sum.splits)
  from getitem_Inr [OF g] show "count_list (columns t) col = 1" by simp
  from getitem_Inr [OF g] str_strip_Inr [OF s]
  show "infer_dtype (map (\<lambda>r. r ! first_pos col (columns t)) (rows t)) \<noteq> InferInteger" by simp
  from getitem_Inr [OF g] str_strip_Inr [OF s] str_lower_Inr [OF l]
  have "vals = map (\<lambda>r. text_cell u (r ! first_pos col (columns t))) (rows t)"
    by (simp add: text_cell_def o_def)
  then show "setitem t col vals = t\<lparr>rows := map (text_at u (first_pos col (columns t))) (rows t)\<rparr>"
    by (simp add: setitem_def map_zip_map text_at_def)
qed

lemma table_loop_None:
  "table_loop u cols t = (None, t') \<Longrightarrow>
   t' = t\<lparr>rows := map (fold (text_at u) (map (\<lambda>c. first_pos c (columns t)) cols)) (rows t)\<rparr> \<and>
   (\<forall>c\<in>set cols. count_list (columns t) c = 1)"
proof (induction cols arbitrary: t)
  case Nil
  then show ?case by simp
next
  case (Cons col cols)
  from Cons.prems obtain vals
    where v: "and_then (and_then (getitem t col) str_strip) (str_lower u) = Inr vals"
    by (cases "and_then (and_then (getitem t col) str_strip) (str_lower u)") auto
  let ?t1 = "t\<lparr>rows := map (text_at u (first_pos col (columns t))) (rows t)\<rparr>"
  from column_pass_Inr [OF v] have c1: "count_list (columns t) col = 1"
    and s: "setitem t col vals = ?t1" by simp_all
  from Cons.prems v s have "table_loop u cols ?t1 = (None, t')" by simp
  from Cons.IH [OF this] c1 show ?case by (simp add: o_def)
qed

lemma length_fold_text_at: "length (fold (text_at u) js r) = length r"
  by (induction js arbitrary: r) (simp_all add: text_at_def)

lemma text_cell_cases:
  "text_cell u (Str s) = Str (lower u (strip s))" "text_cell u (Num n) = NaN"
  "text_cell u NaN = NaN" "text_cell u NoneVal = NoneVal"
  by (simp_all add: text_cell_def)

subsection \<open>Strings after the text pass\<close>

lemma rstrip_prefix: "\<exists>w. y = rstrip y @ w"
  using rstrip_decomp [of y] by blast

lemma stripped_strip: "stripped (strip s)"
proof (cases "strip s = []")
  case True
  then show ?thesis by (simp add: stripped_def)
next
  case False
  let ?y = "lstrip s"
  from False have d: "dropWhile isspace (rev ?y) \<noteq> []" by (simp add: strip_def rstrip_def)
  then have "\<not> isspace (hd (dropWhile isspace (rev ?y)))" by (rule hd_dropWhile)
  moreover have "last (strip s) = hd (dropWhile isspace (rev ?y))"
    using d by (simp add: strip_def rstrip_def last_rev)
  ultimately have l: "\<not> isspace (last (strip s))" by simp
  obtain w where w: "?y = strip s @ w" using rstrip_prefix [of ?y] by (auto simp: strip_def)
  with False have "hd (strip s) = hd ?y" by (metis hd_append2)
  moreover from w False have "?y \<noteq> []" by auto
  then have "\<not> isspace (hd ?y)" unfolding lstrip_def by (rule hd_dropWhile)
  ultimately show ?thesis using l by (simp add: stripped_def)
qed

lemma lower_piece_props:
  assumes pc: "python_casing u"
  shows "lower_piece u pre c post \<noteq> []"
    and "d \<in> set (lower_piece u pre c post) \<Longrightarrow> lower_of u d = [d] \<and> d \<noteq> 0x3A3"
    and "d \<in> set (lower_piece u pre c post) \<Longrightarrow> isspace d \<Longrightarrow> isspace c"
proof -
  show "lower_piece u pre c post \<noteq> []"
    using casing_lower_nonempty [OF pc, of c] by (simp add: lower_piece_def)
  show "lower_of u d = [d] \<and> d \<noteq> 0x3A3" if "d \<in> set (lower_piece u pre c post)"
  proof (cases "c = 0x3A3")
    case True
    with that have "d = 0x3C2 \<or> d = 0x3C3" by (auto simp: lower_piece_def split: if_splits)
    with casing_lower_sigma [OF pc] show ?thesis by auto
  next
    case False
    with that have "d \<in> set (lower_of u c)" by (simp add: lower_piece_def)
    from casing_lower_out(1,2) [OF pc this] show ?thesis by simp
  qed
  show "isspace c" if "d \<in> set (lower_piece u pre c post)" "isspace d"
  proof (cases "c = 0x3A3")
    case True
    with that(1) have "d = 0x3C2 \<or> d = 0x3C3" by (auto simp: lower_piece_def split: if_splits)
    with that(2) show ?thesis by (auto simp: isspace_def)
  next
    case False
    with that(1) have "d \<in> set (lower_of u c)" by (simp add: lower_piece_def)
    from casing_lower_out(3) [OF pc this that(2)] show ?thesis .
  qed
qed

lemma set_lower_from:
  assumes pc: "python_casing u"
  shows "d \<in> set (lower_from u pre s) \<Longrightarrow> lower_of u d = [d] \<and> d \<noteq> 0x3A3"
proof (induction s arbitrary: pre)
  case Nil
  then show ?case by simp
next
  case (Cons c cs)
  from Cons.prems have "d \<in> set (lower_piece u pre c cs) \<or> d \<in> set (lower_from u (pre @ [c]) cs)"
    by simp
  then show ?case
  proof
    assume "d \<in> set (lower_piece u pre c cs)"
    then show ?thesis by (rule lower_piece_props(2) [OF pc])
  next
    assume "d \<in> set (lower_from u (pre @ [c]) cs)"
    then show ?thesis by (rule Cons.IH)
  qed
qed

lemma lower_from_fixed:
  "\<forall>d\<in>set v. lower_of u d = [d] \<and> d \<noteq> 0x3A3 \<Longrightarrow> lower_from u pre v = v"
  by (induction v arbitrary: pre) (simp_all add: lower_piece_def)

lemma lower_idem: "python_casing u \<Longrightarrow> lower u (lower u s) = lower u s"
  unfolding lower_def by (rule lower_from_fixed) (use set_lower_from in blast)

lemma hd_lower_from:
  assumes pc: "python_casing u" and "\<not> isspace c"
  shows "lower_from u pre (c # cs) \<noteq> [] \<and> \<not> isspace (hd (lower_from u pre (c # cs)))"
proof -
  let ?p = "lower_piece u pre c cs"
  have ne: "?p \<noteq> []" by (rule lower_piece_props(1) [OF pc])
  then have "hd ?p \<in> set ?p" by simp
  with lower_piece_props(3) [OF pc] assms(2) have "\<not> isspace (hd ?p)" by blast
  with ne show ?thesis by simp
qed

lemma last_lower_from:
  assumes pc: "python_casing u"
  shows "s \<noteq> [] \<Longrightarrow> \<not> isspace (last s) \<Longrightarrow>
         lower_from u pre s \<noteq> [] \<and> \<not> isspace (last (lower_from u pre s))"
proof (induction s arbitrary: pre)
  case Nil
  then show ?case by simp
next
  case (Cons c cs)
  let ?p = "lower_piece u pre c cs"
  have ne: "?p \<noteq> []" by (rule lower_piece_props(1) [OF pc])
  show ?case
  proof (cases "cs = []")
    case True
    with Cons.prems have "\<not> isspace c" by simp
    moreover from ne have "last ?p \<in> set ?p" by simp
    ultimately have "\<not> isspace (last ?p)" using lower_piece_props(3) [OF pc] by blast
    with True ne show ?thesis by simp
  next
    case False
    with Cons.prems have "\<not> isspace (last cs)" by simp
    from Cons.IH [OF False this, of "pre @ [c]"] show ?thesis by simp
  qed
qed

lemma stripped_lower:
  assumes pc: "python_casing u" and s: "stripped s"
  shows "stripped (lower u s)"
proof (cases s)
  case Nil
  then show ?thesis by (simp add: stripped_def lower_def)
next
  case (Cons c cs)
  with s have h: "\<not> isspace c" and l: "\<not> isspace (last s)" by (auto simp: stripped_def)
  from hd_lower_from [OF pc h, of "[]" cs] last_lower_from [OF pc _ l, of "[]"] Cons
  show ?thesis by (simp add: stripped_def lower_def)
qed

lemma text_string_clean:
  assumes "python_casing u"
  shows "stripped (lower u (strip s)) \<and> lower u (lower u (strip s)) = lower u (strip s)"
  using stripped_lower [OF assms stripped_strip] lower_idem [OF assms] by simp

subsection \<open>The positions of the object columns\<close>

lemma fold_text_at_nth:
  "distinct js \<Longrightarrow> i < length r \<Longrightarrow>
   fold (text_at u) js r ! i = (if i \<in> set js then text_cell u (r ! i) else r ! i)"
proof (induction js arbitrary: r)
  case Nil
  then show ?case by simp
next
  case (Cons j js)
  from Cons.prems have d: "distinct js" and nj: "j \<notin> set js" by simp_all
  from Cons.prems have "i < length (text_at u j r)" by (simp add: text_at_def)
  from Cons.IH [OF d this]
  have ih: "fold (text_at u) js (text_at u j r) ! i
      = (if i \<in> set js then text_cell u (text_at u j r ! i) else text_at u j r ! i)" .
  show ?case
  proof (cases "i = j")
    case True
    with Cons.prems have "text_at u j r ! i = text_cell u (r ! i)" by (simp add: text_at_def)
    with ih True nj show ?thesis by simp
  next
    case False
    then have "text_at u j r ! i = r ! i" by (simp add: text_at_def)
    with ih False show ?thesis by simp
  qed
qed

lemma first_pos_unique:
  "count_list xs x = 1 \<Longrightarrow> i < length xs \<Longrightarrow> xs ! i = x \<Longrightarrow> first_pos x xs = i"
proof (induction xs arbitrary: i)
  case Nil
  then show ?case by simp
next
  case (Cons y ys)
  show ?case
  proof (cases "x = y")
    case True
    with Cons.prems(1) have "count_list ys x = 0" by simp
    then have "x \<notin> set ys" by (simp add: count_list_0_iff)
    with Cons.prems(2,3) have "i = 0" by (cases i) auto
    with True show ?thesis by simp
  next
    case False
    with Cons.prems(3) obtain k where k: "i = Suc k" by (cases i) auto
    with Cons.prems False have "first_pos x ys = k" by (intro Cons.IH) auto
    with False k show ?thesis by simp
  qed
qed

lemma nth_first_pos: "x \<in> set xs \<Longrightarrow> xs ! first_pos x xs = x"
  by (induction xs) auto

lemma first_pos_inj:
  "x \<in> set xs \<Longrightarrow> y \<in> set xs \<Longrightarrow> first_pos x xs = first_pos y xs \<Longrightarrow> x = y"
  by (metis nth_first_pos)

lemma object_columns_iff:
  "length ds = length cs \<Longrightarrow>
   c \<in> set (map fst (filter (\<lambda>(l, d). d = ObjectDtype) (zip cs ds))) \<longleftrightarrow>
     (\<exists>k<length cs. cs ! k = c \<and> ds ! k = ObjectDtype)"
  by (auto simp: set_zip image_iff)

lemma object_columns_subset: "set (object_columns t) \<subseteq> set (columns t)"
  by (auto simp: object_columns_def dest: set_zip_leftD)

lemma count_list_selected:
  "count_list (map fst (filter P (zip cs ds))) c \<le> count_list cs c"
proof (induction cs arbitrary: ds)
  case Nil
  show ?case by simp
next
  case (Cons x xs)
  show ?case
  proof (cases ds)
    case Nil
    then show ?thesis by simp
  next
    case (Cons d ds')
    with Cons.IH [of ds'] show ?thesis by simp
  qed
qed

lemma distinct_count_le: "\<forall>x\<in>set xs. count_list xs x \<le> 1 \<Longrightarrow> distinct xs"
proof (induction xs)
  case Nil
  show ?case by simp
next
  case (Cons x xs)
  from Cons.prems have "count_list xs x = 0" by simp
  then have nx: "x \<notin> set xs" by (simp add: count_list_0_iff)
  have "\<forall>y\<in>set xs. count_list xs y \<le> 1"
  proof
    fix y
    assume y: "y \<in> set xs"
    with Cons.prems have "count_list (x # xs) y \<le> 1" by simp
    moreover from y nx have "y \<noteq> x" by auto
    ultimately show "count_list xs y \<le> 1" by simp
  qed
  from Cons.IH [OF this] nx show ?case by simp
qed

lemma object_columns_distinct:
  assumes uniq: "\<forall>c\<in>set (object_columns t). count_list (columns t) c = 1"
  shows "distinct (object_columns t)"
proof -
  have "\<forall>c\<in>set (object_columns t). count_list (object_columns t) c \<le> 1"
  proof
    fix c
    assume "c \<in> set (object_columns t)"
    with uniq have "count_list (columns t) c = 1" by simp
    with count_list_selected [of "\<lambda>(l, d). d = ObjectDtype" "columns t" "dtypes t" c]
    show "count_list (object_columns t) c \<le> 1" by (simp add: object_columns_def)
  qed
  then show ?thesis by (rule distinct_count_le)
qed

lemma object_positions_distinct:
  assumes uniq: "\<forall>c\<in>set (object_columns t). count_list (columns t) c = 1"
  shows "distinct (map (\<lambda>c. first_pos c (columns t)) (object_columns t))"
proof -
  from uniq have d: "distinct (object_columns t)" by (rule object_columns_distinct)
  have "inj_on (\<lambda>c. first_pos c (columns t)) (set (object_columns t))"
  proof (rule inj_onI)
    fix x y
    assume "x \<in> set (object_columns t)" "y \<in> set (object_columns t)"
      and e: "first_pos x (columns t) = first_pos y (columns t)"
    with object_columns_subset [of t] have "x \<in> set (columns t)" "y \<in> set (columns t)" by auto
    from first_pos_inj [OF this e] show "x = y" .
  qed
  with d show ?thesis by (simp add: distinct_map)
qed

lemma object_positions:
  assumes len: "length (dtypes t) = length (columns t)"
    and uniq: "\<forall>c\<in>set (object_columns t). count_list (columns t) c = 1"
    and i: "i < length (columns t)"
  shows "i \<in> set (map (\<lambda>c. first_pos c (columns t)) (object_columns t)) \<longleftrightarrow> dtypes t ! i = ObjectDtype"
proof
  assume "i \<in> set (map (\<lambda>c. first_pos c (columns t)) (object_columns t))"
  then obtain c where c: "c \<in> set (object_columns t)" and ic: "i = first_pos c (columns t)" by auto
  from c obtain k where k: "k < length (columns t)" "columns t ! k = c" "dtypes t ! k = ObjectDtype"
    unfolding object_columns_def using object_columns_iff [OF len] by blast
  from uniq c have "count_list (columns t) c = 1" by simp
  from first_pos_unique [OF this k(1,2)] ic k(3) show "dtypes t ! i = ObjectDtype" by simp
next
  assume o: "dtypes t ! i = ObjectDtype"
  let ?c = "columns t ! i"
  from i o have c: "?c \<in> set (object_columns t)"
    unfolding object_columns_def using object_columns_iff [OF len] by blast
  with uniq have "count_list (columns t) ?c = 1" by simp
  from first_pos_unique [OF this i] have "first_pos ?c (columns t) = i" by simp
  with c show "i \<in> set (map (\<lambda>c. first_pos c (columns t)) (object_columns t))" by force
qed

lemma text_row_nth:
  "length ds = length r \<Longrightarrow> i < length r \<Longrightarrow>
   text_row u ds r ! i = (if ds ! i = ObjectDtype then text_cell u (r ! i) else r ! i)"
  by (simp add: text_row_def)

lemma fold_text_at_row:
  assumes len: "length (dtypes t) = length (columns t)"
    and uniq: "\<forall>c\<in>set (object_columns t). count_list (columns t) c = 1"
    and r: "length r = length (columns t)"
  shows "fold (text_at u) (map (\<lambda>c. first_pos c (columns t)) (object_columns t)) r
       = text_row u (dtypes t) r"
proof (rule nth_equalityI)
  show "length (fold (text_at u) (map (\<lambda>c. first_pos c (columns t)) (object_columns t)) r)
      = length (text_row u (dtypes t) r)"
    using len r by (simp add: length_fold_text_at text_row_def)
next
  fix i
  assume "i < length (fold (text_at u) (map (\<lambda>c. first_pos c (columns t)) (object_columns t)) r)"
  then have i: "i < length r" by (simp add: length_fold_text_at)
  with r have i': "i < length (columns t)" by simp
  from len r have lr: "length (dtypes t) = length r" by simp
  show "fold (text_at u) (map (\<lambda>c. first_pos c (columns t)) (object_columns t)) r ! i
      = text_row u (dtypes t) r ! i"
    unfolding fold_text_at_nth [OF object_positions_distinct [OF uniq] i] text_row_nth [OF lr i]
      object_positions [OF len uniq i'] ..
qed

subsection \<open>Dropping the duplicates\<close>

lemma upt_0_Suc: "[0..<Suc n] = 0 # map Suc [0..<n]"
  by (simp add: upt_conv_Cons map_Suc_upt del: upt_Suc)

lemma duplicated_from_eq:
  "duplicated_from seen rs = map (\<lambda>i. rs ! i \<in> set seen \<union> set (take i rs)) [0..<length rs]"
proof (induction rs arbitrary: seen)
  case Nil
  show ?case by simp
next
  case (Cons r rs)
  have "duplicated_from seen (r # rs) = (r \<in> set seen) # duplicated_from (r # seen) rs" by simp
  also have "\<dots> = (r \<in> set seen) # map (\<lambda>i. rs ! i \<in> set (r # seen) \<union> set (take i rs)) [0..<length rs]"
    by (simp only: Cons.IH)
  also have "\<dots> = map (\<lambda>i. (r # rs) ! i \<in> set seen \<union> set (take i (r # rs))) [0..<length (r # rs)]"
    unfolding length_Cons upt_0_Suc by (auto simp: o_def)
  finally show ?case .
qed

lemma is_repeat_iff: "is_repeat rs i \<longleftrightarrow> (\<exists>j<i. rs ! j = rs ! i)"
  by (auto simp: is_repeat_def list_ex_iff)

lemma is_repeat_take: "i < length rs \<Longrightarrow> is_repeat rs i \<longleftrightarrow> rs ! i \<in> set (take i rs)"
  unfolding is_repeat_iff by (auto simp: in_set_conv_nth)

lemma duplicated_eq: "duplicated rs = map (is_repeat rs) [0..<length rs]"
  unfolding duplicated_def duplicated_from_eq by (rule map_cong) (simp_all add: is_repeat_take)

lemma keep_unmarked_eq:
  assumes "length ks = length rs"
  shows "keep_unmarked rs (duplicated ks) = map (\<lambda>i. rs ! i) (firsts ks)"
proof -
  have "zip rs (map (is_repeat ks) [0..<length ks]) = map (\<lambda>i. (rs ! i, is_repeat ks i)) [0..<length ks]"
    using assms by (intro nth_equalityI) simp_all
  then show ?thesis
    by (simp add: keep_unmarked_def duplicated_eq firsts_def filter_map o_def)
qed

lemma length_firsts: "length (firsts rs) + length (repeats rs) = length rs"
  using sum_length_filter_compl [of "is_repeat rs" "[0..<length rs]"]
  by (simp add: firsts_def repeats_def)

lemma firsts_sorted: "sorted_wrt (<) (firsts rs)"
  unfolding firsts_def by (rule sorted_wrt_filter) simp

lemma firsts_bound: "k \<in> set (firsts rs) \<Longrightarrow> k < length rs"
  by (simp add: firsts_def)

lemma firsts_cover:
  assumes "i < length rs"
  shows "\<exists>k\<in>set (firsts rs). k \<le> i \<and> rs ! k = rs ! i"
proof -
  define k where "k = (LEAST k. rs ! k = rs ! i)"
  have kx: "rs ! k = rs ! i" unfolding k_def by (rule LeastI) simp
  have kl: "k \<le> i" unfolding k_def by (rule Least_le) simp
  have "\<not> is_repeat rs k"
  proof
    assume "is_repeat rs k"
    then obtain j where j: "j < k" "rs ! j = rs ! k" unfolding is_repeat_iff by blast
    with kx have "k \<le> j" unfolding k_def by (intro Least_le) simp
    with j(1) show False by simp
  qed
  with kl assms have "k \<in> set (firsts rs)" by (simp add: firsts_def)
  with kx kl show ?thesis by blast
qed

lemma drop_duplicates_fields:
  "columns (drop_duplicates t) = columns t" "dtypes (drop_duplicates t) = dtypes t"
  by (simp_all add: drop_duplicates_def Let_def)

lemma drop_duplicates_rows:
  "columns t \<noteq> [] \<Longrightarrow>
   rows (drop_duplicates t)
     = map (\<lambda>i. rows t ! i) (firsts (map (row_key (length (columns t))) (rows t)))"
  by (simp add: drop_duplicates_def Let_def keep_unmarked_eq) (simp add: firsts_def)

lemma drop_duplicates_index:
  "columns t \<noteq> [] \<Longrightarrow> length (row_index t) = length (rows t) \<Longrightarrow>
   row_index (drop_duplicates t) = map int [0..<length (rows (drop_duplicates t))]"
  by (auto simp: drop_duplicates_def Let_def)

lemma drop_duplicates_no_columns: "columns t = [] \<Longrightarrow> drop_duplicates t = t"
  by (simp add: drop_duplicates_def)

subsection \<open>The normalized table\<close>

lemma clean_table_Inr:
  assumes wf: "wf_table t" and ct: "clean_table u t = Inr t'"
  shows "\<exists>names. clean_column_names u (columns t) = Inr names \<and>
     t' = (drop_duplicates (t\<lparr>rows := text_rows u t\<rparr>))\<lparr>columns := map Name names\<rparr>"
proof -
  let ?js = "map (\<lambda>c. first_pos c (columns t)) (object_columns t)"
  from ct obtain t1 where tl: "table_loop u (object_columns t) t = (None, t1)"
    by (auto simp: clean_table_eq split: prod.splits option.splits)
  from table_loop_None [OF tl]
  have t1: "t1 = t\<lparr>rows := map (fold (text_at u) ?js) (rows t)\<rparr>"
    and uniq: "\<forall>c\<in>set (object_columns t). count_list (columns t) c = 1" by simp_all
  from wf have len: "length (dtypes t) = length (columns t)"
    and rl: "\<forall>r\<in>set (rows t). length r = length (columns t)"
    by (simp_all add: wf_table_def list_all_iff)
  have "map (fold (text_at u) ?js) (rows t) = map (text_row u (dtypes t)) (rows t)"
    by (rule map_cong) (simp_all add: fold_text_at_row [OF len uniq] rl)
  with t1 have t1': "t1 = t\<lparr>rows := text_rows u t\<rparr>" by (simp add: text_rows_def)
  from ct tl show ?thesis unfolding t1' [symmetric]
    by (auto simp: clean_table_eq t1 drop_duplicates_fields split: sum.splits)
qed

lemma clean_table_rows:
  assumes wf: "wf_table t" and ct: "clean_table u t = Inr t'"
  shows "dtypes t' = dtypes t"
    and "rows t' = map (\<lambda>i. text_rows u t ! i) (kept u t)"
    and "columns t \<noteq> [] \<Longrightarrow> row_index t' = map int [0..<length (rows t')]"
    and "columns t = [] \<Longrightarrow> row_index t' = row_index t"
proof -
  let ?t1 = "t\<lparr>rows := text_rows u t\<rparr>"
  from clean_table_Inr [OF wf ct] obtain names where
    t': "t' = (drop_duplicates ?t1)\<lparr>columns := map Name names\<rparr>" by blast
  show "dtypes t' = dtypes t" unfolding t' by (simp add: drop_duplicates_fields)
  show "rows t' = map (\<lambda>i. text_rows u t ! i) (kept u t)"
  proof (cases "columns t = []")
    case True
    then have "drop_duplicates ?t1 = ?t1" by (simp add: drop_duplicates_no_columns)
    then have "rows t' = text_rows u t" unfolding t' by simp
    moreover have "length (text_rows u t) = length (rows t)" by (simp add: text_rows_def)
    ultimately show ?thesis using True map_nth [of "text_rows u t"] by (simp add: kept_def)
  next
    case False
    then have "columns ?t1 \<noteq> []" by simp
    from drop_duplicates_rows [OF this] False show ?thesis
      unfolding t' by (simp add: kept_def compared_rows_def)
  qed
  show "row_index t' = map int [0..<length (rows t')]" if "columns t \<noteq> []"
  proof -
    from that have c: "columns ?t1 \<noteq> []" by simp
    from wf have "length (row_index ?t1) = length (rows ?t1)"
      by (simp add: wf_table_def text_rows_def)
    from drop_duplicates_index [OF c this] show ?thesis unfolding t' by simp
  qed
  show "row_index t' = row_index t" if "columns t = []"
    using that unfolding t' by (simp add: drop_duplicates_no_columns)
qed

lemma length_compared_rows: "length (compared_rows u t) = length (rows t)"
  by (simp add: compared_rows_def text_rows_def)

lemma kept_props:
  shows "sorted_wrt (<) (kept u t)"
    and "set (kept u t) \<subseteq> {..<length (rows t)}"
    and "i < length (rows t) \<Longrightarrow>
         \<exists>k\<in>set (kept u t). k \<le> i \<and> compared_rows u t ! k = compared_rows u t ! i"
proof -
  show "sorted_wrt (<) (kept u t)" by (simp add: kept_def firsts_sorted)
  show "set (kept u t) \<subseteq> {..<length (rows t)}"
    using firsts_bound [of _ "compared_rows u t"] by (auto simp: kept_def length_compared_rows)
  show "\<exists>k\<in>set (kept u t). k \<le> i \<and> compared_rows u t ! k = compared_rows u t ! i"
    if "i < length (rows t)"
  proof (cases "columns t = []")
    case True
    with that show ?thesis by (auto simp: kept_def)
  next
    case False
    from that have "i < length (compared_rows u t)" by (simp add: length_compared_rows)
    from firsts_cover [OF this] False show ?thesis by (simp add: kept_def)
  qed
qed

lemma text_rows_nth:
  assumes "wf_table t" and "i < length (rows t)" and "j < length (dtypes t)"
  shows "text_rows u t ! i ! j
       = (if dtypes t ! j = ObjectDtype then text_cell u (rows t ! i ! j) else rows t ! i ! j)"
proof -
  from assms(1,2) have "length (dtypes t) = length (rows t ! i)"
    by (simp add: wf_table_def list_all_iff)
  with assms(2,3) show ?thesis by (simp add: text_rows_def text_row_nth)
qed

lemma text_cell_case:
  "text_cell u c
     = (case c of Str s \<Rightarrow> Str (lower u (strip s)) | Num n \<Rightarrow> NaN | NaN \<Rightarrow> NaN | NoneVal \<Rightarrow> NoneVal)"
  by (cases c) (simp_all add: text_cell_cases)

subsection \<open>When the normalization returns\<close>

lemma infer_dtype_no_num: "\<forall>v\<in>set vs. \<not> is_num v \<Longrightarrow> infer_dtype vs \<noteq> InferInteger"
proof -
  assume a: "\<forall>v\<in>set vs. \<not> is_num v"
  let ?p = "filter (\<lambda>c. \<not> is_null c) vs"
  have "\<not> list_all is_num ?p" if "?p \<noteq> []"
  proof -
    from that obtain v where "v \<in> set ?p" by (cases ?p) auto
    with a show ?thesis by (auto simp: list_all_iff)
  qed
  then show ?thesis by (auto simp: infer_dtype_def Let_def)
qed

lemma str_map_no_num: "\<not> is_num (str_map f c)"
  by (cases c) (simp_all add: is_num_def)

lemma column_pass_returns:
  assumes "count_list (columns t) col = 1"
    and "infer_dtype (map (\<lambda>r. r ! first_pos col (columns t)) (rows t)) \<noteq> InferInteger"
  shows "\<exists>vals. and_then (and_then (getitem t col) str_strip) (str_lower u) = Inr vals"
proof -
  let ?v = "map (\<lambda>r. r ! first_pos col (columns t)) (rows t)"
  from assms(1) have g: "getitem t col = Inr ?v" by (simp add: getitem_def)
  from assms(2) have s: "str_strip ?v = Inr (map (str_map strip) ?v)"
    by (simp add: str_strip_def str_accessor_def and_then_def)
  have "infer_dtype (map (str_map strip) ?v) \<noteq> InferInteger"
    by (rule infer_dtype_no_num) (auto simp: str_map_no_num)
  then have "str_lower u (map (str_map strip) ?v)
      = Inr (map (str_map (lower u)) (map (str_map strip) ?v))"
    by (simp add: str_lower_def str_accessor_def and_then_def)
  with g s show ?thesis by (simp add: and_then_def)
qed

lemma text_at_other:
  assumes "c \<in> set (columns t)" and "col \<in> set (columns t)" and "c \<noteq> col"
  shows "map (\<lambda>r. r ! first_pos c (columns (t\<lparr>rows := map (text_at u (first_pos col (columns t))) (rows t)\<rparr>)))
           (rows (t\<lparr>rows := map (text_at u (first_pos col (columns t))) (rows t)\<rparr>))
       = map (\<lambda>r. r ! first_pos c (columns t)) (rows t)"
proof -
  from assms have "first_pos c (columns t) \<noteq> first_pos col (columns t)"
    using first_pos_inj by metis
  then show ?thesis by (simp add: text_at_def o_def)
qed

lemma table_loop_returns:
  assumes "distinct cols" and "set cols \<subseteq> set (columns t)"
    and "\<forall>c\<in>set cols. count_list (columns t) c = 1"
    and "\<forall>c\<in>set cols. infer_dtype (map (\<lambda>r. r ! first_pos c (columns t)) (rows t)) \<noteq> InferInteger"
  shows "\<exists>t1. table_loop u cols t = (None, t1)"
  using assms
proof (induction cols arbitrary: t)
  case Nil
  show ?case by simp
next
  case (Cons col cols)
  let ?j = "first_pos col (columns t)"
  let ?t1 = "t\<lparr>rows := map (text_at u ?j) (rows t)\<rparr>"
  from Cons.prems(3,4) column_pass_returns [of t col u] obtain vals
    where v: "and_then (and_then (getitem t col) str_strip) (str_lower u) = Inr vals" by auto
  from column_pass_Inr(2) [OF v] have s: "setitem t col vals = ?t1" .
  have "\<exists>t1. table_loop u cols ?t1 = (None, t1)"
  proof (rule Cons.IH)
    show "distinct cols" using Cons.prems(1) by simp
    show "set cols \<subseteq> set (columns ?t1)" using Cons.prems(2) by simp
    show "\<forall>c\<in>set cols. count_list (columns ?t1) c = 1" using Cons.prems(3) by simp
    show "\<forall>c\<in>set cols. infer_dtype (map (\<lambda>r. r ! first_pos c (columns ?t1)) (rows ?t1)) \<noteq> InferInteger"
    proof
      fix c
      assume c: "c \<in> set cols"
      with Cons.prems(1) have ne: "c \<noteq> col" by auto
      from c Cons.prems(2) have in1: "c \<in> set (columns t)" and in2: "col \<in> set (columns t)" by auto
      from c Cons.prems(4)
      have "infer_dtype (map (\<lambda>r. r ! first_pos c (columns t)) (rows t)) \<noteq> InferInteger" by simp
      then show "infer_dtype (map (\<lambda>r. r ! first_pos c (columns ?t1)) (rows ?t1)) \<noteq> InferInteger"
        unfolding text_at_other [OF in1 in2 ne] .
    qed
  qed
  with v s show ?case by simp
qed

lemma table_loop_accepts:
  assumes "table_loop u cols t = (None, t')" and "distinct cols" and "set cols \<subseteq> set (columns t)"
  shows "\<forall>c\<in>set cols. infer_dtype (map (\<lambda>r. r ! first_pos c (columns t)) (rows t)) \<noteq> InferInteger"
  using assms
proof (induction cols arbitrary: t)
  case Nil
  show ?case by simp
next
  case (Cons col cols)
  let ?j = "first_pos col (columns t)"
  let ?t1 = "t\<lparr>rows := map (text_at u ?j) (rows t)\<rparr>"
  from Cons.prems(1) obtain vals
    where v: "and_then (and_then (getitem t col) str_strip) (str_lower u) = Inr vals"
    by (cases "and_then (and_then (getitem t col) str_strip) (str_lower u)") auto
  from column_pass_Inr(2) [OF v] have s: "setitem t col vals = ?t1" .
  from column_pass_Inr(3) [OF v]
  have a: "infer_dtype (map (\<lambda>r. r ! ?j) (rows t)) \<noteq> InferInteger" .
  from Cons.prems(1) v s have tl: "table_loop u cols ?t1 = (None, t')" by simp
  have ih: "\<forall>c\<in>set cols. infer_dtype (map (\<lambda>r. r ! first_pos c (columns ?t1)) (rows ?t1)) \<noteq> InferInteger"
  proof (rule Cons.IH [OF tl])
    show "distinct cols" using Cons.prems(2) by simp
    show "set cols \<subseteq> set (columns ?t1)" using Cons.prems(3) by simp
  qed
  show ?case
  proof
    fix c
    assume c: "c \<in> set (col # cols)"
    show "infer_dtype (map (\<lambda>r. r ! first_pos c (columns t)) (rows t)) \<noteq> InferInteger"
    proof (cases "c = col")
      case True
      with a show ?thesis by simp
    next
      case False
      with c have c': "c \<in> set cols" by simp
      from c' Cons.prems(3) have in1: "c \<in> set (columns t)" and in2: "col \<in> set (columns t)" by auto
      from ih c'
      have "infer_dtype (map (\<lambda>r. r ! first_pos c (columns ?t1)) (rows ?t1)) \<noteq> InferInteger"
        by blast
      then show ?thesis unfolding text_at_other [OF in1 in2 False] .
    qed
  qed
qed

lemma clean_table_accepts:
  assumes wf: "wf_table t" and ct: "clean_table u t = Inr t'"
    and j: "j < length (dtypes t)" and o: "dtypes t ! j = ObjectDtype"
  shows "infer_dtype (map (\<lambda>r. r ! j) (rows t)) \<noteq> InferInteger"
proof -
  from ct obtain t1 where tl: "table_loop u (object_columns t) t = (None, t1)"
    by (auto simp: clean_table_eq split: prod.splits option.splits)
  from table_loop_None [OF tl]
  have uniq: "\<forall>c\<in>set (object_columns t). count_list (columns t) c = 1" by simp
  from wf have len: "length (dtypes t) = length (columns t)" by (simp add: wf_table_def)
  let ?c = "columns t ! j"
  from j o len have c: "?c \<in> set (object_columns t)"
    unfolding object_columns_def using object_columns_iff [OF len] by auto
  with uniq have "count_list (columns t) ?c = 1" by simp
  from first_pos_unique [OF this] j len have fp: "first_pos ?c (columns t) = j" by simp
  from table_loop_accepts [OF tl object_columns_distinct [OF uniq] object_columns_subset] c
  have "infer_dtype (map (\<lambda>r. r ! first_pos ?c (columns t)) (rows t)) \<noteq> InferInteger" by blast
  then show ?thesis unfolding fp .
qed

lemma map_exn_names:
  "\<forall>l\<in>set ls. \<exists>s. l = Name s \<Longrightarrow> \<exists>ns. map_exn collapse_label ls = Inr ns"
proof (induction ls)
  case Nil
  show ?case by simp
next
  case (Cons l ls)
  then obtain s ns where "l = Name s" "map_exn collapse_label ls = Inr ns" by auto
  then show ?case by simp
qed

lemma distinct_count_list: "distinct xs \<Longrightarrow> x \<in> set xs \<Longrightarrow> count_list xs x = 1"
  by (induction xs) auto

text \<open>
  The normalization returns on every table whose column labels are strings and differ
  from each other and whose \<open>object\<close> columns each hold a string or no number: a
  column that mixes strings and numbers is accepted. It raises on an \<open>object\<close> column
  that holds numbers only, and it leaves a table without columns as it is.
\<close>

lemma clean_table_returns:
  assumes "distinct (columns t)" and "\<forall>l\<in>set (columns t). \<exists>s. l = Name s"
    and "\<forall>c\<in>set (object_columns t).
           infer_dtype (map (\<lambda>r. r ! first_pos c (columns t)) (rows t)) \<noteq> InferInteger"
  shows "\<exists>t'. clean_table u t = Inr t'"
proof -
  note sub = object_columns_subset [of t]
  have uniq: "\<forall>c\<in>set (object_columns t). count_list (columns t) c = 1"
  proof
    fix c
    assume "c \<in> set (object_columns t)"
    with sub have "c \<in> set (columns t)" by blast
    with assms(1) show "count_list (columns t) c = 1" by (rule distinct_count_list)
  qed
  from table_loop_returns [OF object_columns_distinct [OF uniq] sub uniq assms(3)]
  obtain t1 where t1: "table_loop u (object_columns t) t = (None, t1)" by blast
  from table_loop_None [OF this] have "columns t1 = columns t" by simp
  with map_exn_names [OF assms(2)] obtain ns
    where "map_exn collapse_label (columns (drop_duplicates t1)) = Inr ns"
    by (auto simp: drop_duplicates_fields)
  then have "\<exists>names. clean_column_names u (columns (drop_duplicates t1)) = Inr names"
    by (simp add: clean_column_names_def and_then_def)
  with t1 show ?thesis by (auto simp: clean_table_eq)
qed

lemma clean_table_no_columns:
  "clean_table sample \<lparr>columns = [], dtypes = [], row_index = [0, 1, 2], rows = [[], [], []]\<rparr>
     = Inr \<lparr>columns = [], dtypes = [], row_index = [0, 1, 2], rows = [[], [], []]\<rparr>"
  by code_simp

text \<open>
  One column with a string, a number and \<open>None\<close>: three rows stay, since \<open>nan\<close> and
  \<open>None\<close> differ where one column is compared. With a second column the two rows are
  equal and one of them goes.
\<close>

lemma clean_table_missing_values:
  "clean_table sample
     \<lparr>columns = [Name (str ''v'')], dtypes = [ObjectDtype], row_index = [0, 1, 2],
      rows = [[Str (str ''x'')], [Num 7], [NoneVal]]\<rparr>
   = Inr \<lparr>columns = [Name (str ''V'')], dtypes = [ObjectDtype], row_index = [0, 1, 2],
          rows = [[Str (str ''x'')], [NaN], [NoneVal]]\<rparr>"
  "clean_table sample
     \<lparr>columns = [Name (str ''v''), Name (str ''n'')], dtypes = [ObjectDtype, OtherDtype ''int64''],
      row_index = [0, 1, 2],
      rows = [[Str (str ''x''), Num 1], [Num 7, Num 1], [NoneVal, Num 1]]\<rparr>
   = Inr \<lparr>columns = [Name (str ''V''), Name (str ''N'')],
          dtypes = [ObjectDtype, OtherDtype ''int64''], row_index = [0, 1],
          rows = [[Str (str ''x''), Num 1], [NaN, Num 1]]\<rparr>"
  by code_simp+

subsection \<open>The claims on the normalized table\<close>

text \<open>
  C5, as stated, fails. The table \<open>city_table\<close> has one text column and the rows \<open>A\<close>
  and \<open>a\<close>, neither a duplicate of the other: the count that C5 states is two. The
  normalized table has one row, since the rows are compared after the text pass.
\<close>

theorem clean_table_city_counterexample:
  "clean_table sample city_table =
     Inr \<lparr>columns = [Name (str ''CITY'')], dtypes = [ObjectDtype], row_index = [0],
          rows = [[Str (str ''a'')]]\<rparr> \<and>
   repeats (rows city_table) = [] \<and>
   length (rows city_table) - length (repeats (rows city_table)) = 2"
  by code_simp

text \<open>
  C5, amended. For a well-formed table with at least one column on which the
  normalization returns, and whatever the case mappings are: the rows of the result
  are the rows of the table after the text pass that, as \<open>duplicated\<close> compares them,
  repeat no earlier such row, in their order; their number is the number of the rows of
  the table less the number of those that repeat an earlier one, and so at most the
  number of the rows of the table; and the row labels of the result count from zero.
  The rows are compared after the text pass; where the frame has more than one column,
  \<open>nan\<close> and \<open>None\<close> count as equal.
\<close>

theorem clean_table_row_count:
  assumes "wf_table t" and "clean_table u t = Inr t'" and "columns t \<noteq> []"
  shows "length (rows t') \<le> length (rows t) \<and>
         length (rows t') = length (rows t) - length (repeats (compared_rows u t)) \<and>
         rows t' = map (\<lambda>i. text_rows u t ! i) (firsts (compared_rows u t)) \<and>
         sorted_wrt (<) (firsts (compared_rows u t)) \<and>
         row_index t' = map int [0..<length (rows t')] \<and>
         (\<forall>i. is_repeat (compared_rows u t) i
            \<longleftrightarrow> (\<exists>j<i. compared_rows u t ! j = compared_rows u t ! i)) \<and>
         compared_rows u t
           = map (if length (columns t) = 1 then (\<lambda>r. r) else map null_key) (text_rows u t)"
proof -
  note cr = clean_table_rows [OF assms(1,2)]
  from cr(2) assms(3)
  have rows: "rows t' = map (\<lambda>i. text_rows u t ! i) (firsts (compared_rows u t))"
    by (simp add: kept_def)
  from cr(3) [OF assms(3)] have idx: "row_index t' = map int [0..<length (rows t')]" .
  from length_firsts [of "compared_rows u t"] rows
  have len: "length (rows t') + length (repeats (compared_rows u t)) = length (rows t)"
    by (simp add: length_compared_rows)
  from len have "length (rows t') \<le> length (rows t)"
    and "length (rows t') = length (rows t) - length (repeats (compared_rows u t))" by arith+
  moreover have "compared_rows u t
      = map (if length (columns t) = 1 then (\<lambda>r. r) else map null_key) (text_rows u t)"
    unfolding compared_rows_def by (rule map_cong) (simp_all add: row_key_def)
  ultimately show ?thesis using rows idx firsts_sorted [of "compared_rows u t"]
    by (simp only: is_repeat_iff simp_thms)
qed

theorem clean_table_row_count_witness:
  "wf_table sales_table \<and> columns sales_table \<noteq> [] \<and>
   clean_table sample sales_table = Inr sales_cleaned \<and>
   compared_rows sample sales_table =
     [[Str (str ''oslo''), Num 5], [Str (str ''oslo''), Num 5], [NaN, Num 5], [NaN, Num 5],
      [Str (str ''rome''), Num 2]] \<and>
   repeats (compared_rows sample sales_table) = [1, 3] \<and>
   firsts (compared_rows sample sales_table) = [0, 2, 4] \<and>
   length (rows sales_cleaned) = length (rows sales_table) - length [1::nat, 3] \<and>
   rows sales_cleaned = map (\<lambda>i. text_rows sample sales_table ! i) [0, 2, 4]"
proof -
  have c: "columns sales_table \<noteq> []" by code_simp
  have t: "compared_rows sample sales_table =
     [[Str (str ''oslo''), Num 5], [Str (str ''oslo''), Num 5], [NaN, Num 5], [NaN, Num 5],
      [Str (str ''rome''), Num 2]]"
    by code_simp
  have r: "repeats (compared_rows sample sales_table) = [1, 3]" by code_simp
  have f: "firsts (compared_rows sample sales_table) = [0, 2, 4]" by code_simp
  from clean_table_row_count [OF sales_table_clean c]
  have "length (rows sales_cleaned)
          = length (rows sales_table) - length (repeats (compared_rows sample sales_table))"
    and "rows sales_cleaned
          = map (\<lambda>i. text_rows sample sales_table ! i) (firsts (compared_rows sample sales_table))"
    by blast+
  then have "length (rows sales_cleaned) = length (rows sales_table) - length [1::nat, 3]"
    and "rows sales_cleaned = map (\<lambda>i. text_rows sample sales_table ! i) [0, 2, 4]"
    unfolding r f by this+
  with sales_table_clean c t r f show ?thesis by (simp only: simp_thms)
qed

text \<open>
  C6, as stated, fails. The table \<open>glyph_table\<close> has an \<open>object\<close> column that holds the
  double-struck capital C between two spaces, and a text column of the dtype \<open>string\<close>
  that holds \<open> A \<close>. The double-struck capital C is an upper-case letter with no
  lower-case form, which \<open>str.lower\<close> keeps; the column of the dtype \<open>string\<close> is not
  among those that \<open>select_dtypes(include=['object'])\<close> selects and keeps its spaces
  and its capital.
\<close>

theorem clean_table_glyph_counterexample:
  "clean_table sample glyph_table = Inr glyph_cleaned \<and>
   rows glyph_cleaned = [[Str [0x2102], Str (str '' A '')]] \<and>
   isupper sample 0x2102 \<and> lower sample [0x2102] = [0x2102] \<and>
   isspace (hd (str '' A '')) \<and> isupper sample (str '' A '' ! 1)"
  by code_simp

text \<open>
  C6, amended. For a well-formed table on which the normalization returns, with case
  mappings that have the facts \<open>python_casing\<close>: the dtypes of the columns are kept; the
  rows of the result are the rows of the table after the text pass at the positions
  \<open>kept\<close>, which increase, lie in the table, and hold for every row of the table an
  earlier or the same row that compares equal to it. In a row after the text pass,
  the cell of a column of the dtype \<open>object\<close> that held the string \<open>s\<close> holds
  \<open>lower (strip s)\<close>, which neither starts nor ends with white space, which \<open>lower\<close>
  leaves as it is and of which every character is its own lower-case form; a cell
  there that held no string holds no string; and the cell of a column of any other
  dtype is the cell of the table.
\<close>

theorem clean_table_text_columns:
  assumes "python_casing u" and "wf_table t" and "clean_table u t = Inr t'"
  shows "dtypes t' = dtypes t \<and>
         rows t' = map (\<lambda>i. text_rows u t ! i) (kept u t) \<and>
         sorted_wrt (<) (kept u t) \<and> set (kept u t) \<subseteq> {..<length (rows t)} \<and>
         (\<forall>i<length (rows t).
            \<exists>k\<in>set (kept u t). k \<le> i \<and> compared_rows u t ! k = compared_rows u t ! i) \<and>
         (\<forall>i<length (rows t). \<forall>j<length (dtypes t).
            (dtypes t ! j = ObjectDtype \<longrightarrow>
               (\<forall>s. rows t ! i ! j = Str s \<longrightarrow>
                  text_rows u t ! i ! j = Str (lower u (strip s)) \<and>
                  stripped (lower u (strip s)) \<and>
                  lower u (lower u (strip s)) = lower u (strip s) \<and>
                  (\<forall>d\<in>set (lower u (strip s)). lower_of u d = [d])) \<and>
               ((\<forall>s. rows t ! i ! j \<noteq> Str s) \<longrightarrow> (\<forall>s. text_rows u t ! i ! j \<noteq> Str s))) \<and>
            (dtypes t ! j \<noteq> ObjectDtype \<longrightarrow> text_rows u t ! i ! j = rows t ! i ! j))"
proof -
  note cr = clean_table_rows [OF assms(2,3)]
  have cells: "(dtypes t ! j = ObjectDtype \<longrightarrow>
               (\<forall>s. rows t ! i ! j = Str s \<longrightarrow>
                  text_rows u t ! i ! j = Str (lower u (strip s)) \<and>
                  stripped (lower u (strip s)) \<and>
                  lower u (lower u (strip s)) = lower u (strip s) \<and>
                  (\<forall>d\<in>set (lower u (strip s)). lower_of u d = [d])) \<and>
               ((\<forall>s. rows t ! i ! j \<noteq> Str s) \<longrightarrow> (\<forall>s. text_rows u t ! i ! j \<noteq> Str s))) \<and>
            (dtypes t ! j \<noteq> ObjectDtype \<longrightarrow> text_rows u t ! i ! j = rows t ! i ! j)"
    if i: "i < length (rows t)" and j: "j < length (dtypes t)" for i j
  proof -
    note n = text_rows_nth [OF assms(2) i j, of u]
    have "text_rows u t ! i ! j = Str (lower u (strip s)) \<and>
          stripped (lower u (strip s)) \<and>
          lower u (lower u (strip s)) = lower u (strip s) \<and>
          (\<forall>d\<in>set (lower u (strip s)). lower_of u d = [d])"
      if "dtypes t ! j = ObjectDtype" "rows t ! i ! j = Str s" for s
    proof -
      from that n have "text_rows u t ! i ! j = Str (lower u (strip s))"
        by (simp add: text_cell_cases)
      moreover have "\<forall>d\<in>set (lower u (strip s)). lower_of u d = [d]"
        using set_lower_from [OF assms(1), of _ "[]" "strip s"] by (simp add: lower_def)
      ultimately show ?thesis using text_string_clean [OF assms(1), of s] by simp
    qed
    moreover have "\<forall>s. text_rows u t ! i ! j \<noteq> Str s"
      if "dtypes t ! j = ObjectDtype" "\<forall>s. rows t ! i ! j \<noteq> Str s"
      using that n by (cases "rows t ! i ! j") (simp_all add: text_cell_cases)
    moreover have "text_rows u t ! i ! j = rows t ! i ! j" if "dtypes t ! j \<noteq> ObjectDtype"
      using that n by simp
    ultimately show ?thesis by blast
  qed
  then have all_cells: "\<forall>i<length (rows t). \<forall>j<length (dtypes t).
            (dtypes t ! j = ObjectDtype \<longrightarrow>
               (\<forall>s. rows t ! i ! j = Str s \<longrightarrow>
                  text_rows u t ! i ! j = Str (lower u (strip s)) \<and>
                  stripped (lower u (strip s)) \<and>
                  lower u (lower u (strip s)) = lower u (strip s) \<and>
                  (\<forall>d\<in>set (lower u (strip s)). lower_of u d = [d])) \<and>
               ((\<forall>s. rows t ! i ! j \<noteq> Str s) \<longrightarrow> (\<forall>s. text_rows u t ! i ! j \<noteq> Str s))) \<and>
            (dtypes t ! j \<noteq> ObjectDtype \<longrightarrow> text_rows u t ! i ! j = rows t ! i ! j)"
    by (intro allI impI)
  have cover: "\<forall>i<length (rows t).
      \<exists>k\<in>set (kept u t). k \<le> i \<and> compared_rows u t ! k = compared_rows u t ! i"
    by (intro allI impI) (rule kept_props(3))
  from cr(1,2) kept_props(1,2) [of u t] cover all_cells
  show ?thesis by (intro conjI)
qed

theorem clean_table_text_columns_witness:
  "python_casing sample \<and> wf_table sales_table \<and>
   clean_table sample sales_table = Inr sales_cleaned \<and>
   kept sample sales_table = [0, 2, 4] \<and>
   rows sales_cleaned = map (\<lambda>i. text_rows sample sales_table ! i) [0, 2, 4] \<and>
   rows sales_table ! 0 ! 0 = Str (str '' Oslo '') \<and>
   text_rows sample sales_table ! 0 ! 0 = Str (lower sample (strip (str '' Oslo ''))) \<and>
   lower sample (strip (str '' Oslo '')) = str ''oslo'' \<and>
   stripped (lower sample (strip (str '' Oslo ''))) \<and>
   text_rows sample sales_table ! 4 ! 1 = rows sales_table ! 4 ! 1"
proof -
  have k: "kept sample sales_table = [0, 2, 4]" by code_simp
  have d: "dtypes sales_table = [ObjectDtype, OtherDtype ''int64'']" by code_simp
  have l: "length (rows sales_table) = 5" by code_simp
  have c: "rows sales_table ! 0 ! 0 = Str (str '' Oslo '')" by code_simp
  have v: "lower sample (strip (str '' Oslo '')) = str ''oslo''" by code_simp
  note th = clean_table_text_columns [OF python_casing_sample sales_table_clean]
  from th have "rows sales_cleaned = map (\<lambda>i. text_rows sample sales_table ! i) (kept sample sales_table)"
    by blast
  then have r: "rows sales_cleaned = map (\<lambda>i. text_rows sample sales_table ! i) [0, 2, 4]"
    unfolding k .
  from th have cells: "\<forall>i<length (rows sales_table). \<forall>j<length (dtypes sales_table).
            (dtypes sales_table ! j = ObjectDtype \<longrightarrow>
               (\<forall>s. rows sales_table ! i ! j = Str s \<longrightarrow>
                  text_rows sample sales_table ! i ! j = Str (lower sample (strip s)) \<and>
                  stripped (lower sample (strip s)) \<and>
                  lower sample (lower sample (strip s)) = lower sample (strip s) \<and>
                  (\<forall>d\<in>set (lower sample (strip s)). lower_of sample d = [d])) \<and>
               ((\<forall>s. rows sales_table ! i ! j \<noteq> Str s)
                  \<longrightarrow> (\<forall>s. text_rows sample sales_table ! i ! j \<noteq> Str s))) \<and>
            (dtypes sales_table ! j \<noteq> ObjectDtype
               \<longrightarrow> text_rows sample sales_table ! i ! j = rows sales_table ! i ! j)"
    by blast
  have "(0::nat) < length (rows sales_table)" "(0::nat) < length (dtypes sales_table)"
    "dtypes sales_table ! 0 = ObjectDtype"
    unfolding l d by simp_all
  with cells c
  have a: "text_rows sample sales_table ! 0 ! 0 = Str (lower sample (strip (str '' Oslo '')))"
    and b: "stripped (lower sample (strip (str '' Oslo '')))" by blast+
  have "(4::nat) < length (rows sales_table)" "(1::nat) < length (dtypes sales_table)"
    "dtypes sales_table ! 1 \<noteq> ObjectDtype"
    unfolding l d by simp_all
  with cells have e: "text_rows sample sales_table ! 4 ! 1 = rows sales_table ! 4 ! 1" by blast
  from python_casing_sample sales_table_clean k r c a v b e show ?thesis by (simp only: simp_thms)
qed

text \<open>
  C10, as stated, fails. In the table \<open>code_table\<close> the column of the dtype \<open>object\<close>
  holds numbers only: there the \<open>.str\<close> accessor raises, the normalization returns no
  table and no entry is replaced. In \<open>accent_table\<close> the entry \<open>None\<close> of the fourth row
  is \<open>None\<close> in the result, not \<open>nan\<close>.
\<close>

theorem clean_table_numbers_counterexample:
  "clean_table sample code_table
     = Inl (AttributeError ''Can only use .str accessor with string values!'') \<and>
   dtypes code_table = [ObjectDtype] \<and> rows code_table = [[Num 1], [Num 2]] \<and>
   clean_table sample accent_table = Inr accent_cleaned \<and>
   rows accent_table ! 3 ! 0 = NoneVal \<and> rows accent_cleaned ! 2 ! 0 = NoneVal"
  by code_simp

text \<open>
  C10, amended. For a well-formed table on which the normalization returns, whatever
  the case mappings are: no column of the dtype \<open>object\<close> holds numbers and, but for
  missing values, nothing else (on such a column the normalization raises). The rows of
  the result are the rows of the table after the text pass at the positions \<open>kept\<close>,
  which lie in the table and hold for every row of the table an earlier or the same row
  that compares equal to it. In a row after the text pass, the cell of a column of the
  dtype \<open>object\<close> holds the stripped, lower-cased string where the table held a string,
  \<open>nan\<close> where it held a number or \<open>nan\<close>, and \<open>None\<close> where it held \<open>None\<close>.
\<close>

theorem clean_table_non_strings:
  assumes "wf_table t" and "clean_table u t = Inr t'"
  shows "(\<forall>j<length (dtypes t). dtypes t ! j = ObjectDtype \<longrightarrow>
            infer_dtype (map (\<lambda>r. r ! j) (rows t)) \<noteq> InferInteger) \<and>
         rows t' = map (\<lambda>i. text_rows u t ! i) (kept u t) \<and>
         set (kept u t) \<subseteq> {..<length (rows t)} \<and>
         (\<forall>i<length (rows t).
            \<exists>k\<in>set (kept u t). k \<le> i \<and> compared_rows u t ! k = compared_rows u t ! i) \<and>
         (\<forall>i<length (rows t). \<forall>j<length (dtypes t). dtypes t ! j = ObjectDtype \<longrightarrow>
            text_rows u t ! i ! j =
              (case rows t ! i ! j of
                 Str s \<Rightarrow> Str (lower u (strip s)) | Num n \<Rightarrow> NaN | NaN \<Rightarrow> NaN
               | NoneVal \<Rightarrow> NoneVal))"
proof -
  note cr = clean_table_rows [OF assms]
  have cells: "text_rows u t ! i ! j =
      (case rows t ! i ! j of
         Str s \<Rightarrow> Str (lower u (strip s)) | Num n \<Rightarrow> NaN | NaN \<Rightarrow> NaN | NoneVal \<Rightarrow> NoneVal)"
    if "i < length (rows t)" "j < length (dtypes t)" "dtypes t ! j = ObjectDtype" for i j
    using text_rows_nth [OF assms(1) that(1,2), of u] that(3)
    by (simp add: text_cell_case)
  then have all_cells: "\<forall>i<length (rows t). \<forall>j<length (dtypes t). dtypes t ! j = ObjectDtype \<longrightarrow>
            text_rows u t ! i ! j =
              (case rows t ! i ! j of
                 Str s \<Rightarrow> Str (lower u (strip s)) | Num n \<Rightarrow> NaN | NaN \<Rightarrow> NaN
               | NoneVal \<Rightarrow> NoneVal)"
    by (intro allI impI)
  have cover: "\<forall>i<length (rows t).
      \<exists>k\<in>set (kept u t). k \<le> i \<and> compared_rows u t ! k = compared_rows u t ! i"
    by (intro allI impI) (rule kept_props(3))
  have accepts: "\<forall>j<length (dtypes t). dtypes t ! j = ObjectDtype \<longrightarrow>
            infer_dtype (map (\<lambda>r. r ! j) (rows t)) \<noteq> InferInteger"
    by (intro allI impI) (rule clean_table_accepts [OF assms])
  from accepts cr(2) kept_props(2) [of u t] cover all_cells
  show ?thesis by (intro conjI)
qed

theorem clean_table_non_strings_witness:
  "wf_table accent_table \<and> clean_table sample accent_table = Inr accent_cleaned \<and>
   rows accent_table = [[Str [0xC9]], [Str [0xE9]], [Num 7], [NoneVal]] \<and>
   infer_dtype (map (\<lambda>r. r ! 0) (rows accent_table)) = InferMixed \<and>
   kept sample accent_table = [0, 2, 3] \<and>
   rows accent_cleaned = map (\<lambda>i. text_rows sample accent_table ! i) [0, 2, 3] \<and>
   text_rows sample accent_table ! 2 ! 0 = NaN \<and>
   text_rows sample accent_table ! 3 ! 0 = NoneVal"
proof -
  have w: "wf_table accent_table" and ct: "clean_table sample accent_table = Inr accent_cleaned"
    by code_simp+
  have k: "kept sample accent_table = [0, 2, 3]" by code_simp
  have d: "dtypes accent_table = [ObjectDtype]" by code_simp
  have r: "rows accent_table = [[Str [0xC9]], [Str [0xE9]], [Num 7], [NoneVal]]" by code_simp
  have m: "infer_dtype (map (\<lambda>r. r ! 0) (rows accent_table)) = InferMixed" by code_simp
  note th = clean_table_non_strings [OF w ct]
  from th have "rows accent_cleaned
      = map (\<lambda>i. text_rows sample accent_table ! i) (kept sample accent_table)" by blast
  then have e: "rows accent_cleaned = map (\<lambda>i. text_rows sample accent_table ! i) [0, 2, 3]"
    unfolding k .
  from th have cells: "\<forall>i<length (rows accent_table). \<forall>j<length (dtypes accent_table).
      dtypes accent_table ! j = ObjectDtype \<longrightarrow>
        text_rows sample accent_table ! i ! j =
          (case rows accent_table ! i ! j of
             Str s \<Rightarrow> Str (lower sample (strip s)) | Num n \<Rightarrow> NaN | NaN \<Rightarrow> NaN
           | NoneVal \<Rightarrow> NoneVal)"
    by blast
  have j: "(0::nat) < length (dtypes accent_table)" "dtypes accent_table ! 0 = ObjectDtype"
    unfolding d by simp_all
  have "(2::nat) < length (rows accent_table)" unfolding r by simp
  with cells j have "text_rows sample accent_table ! 2 ! 0 =
          (case rows accent_table ! 2 ! 0 of
             Str s \<Rightarrow> Str (lower sample (strip s)) | Num n \<Rightarrow> NaN | NaN \<Rightarrow> NaN
           | NoneVal \<Rightarrow> NoneVal)" by blast
  then have a: "text_rows sample accent_table ! 2 ! 0 = NaN" unfolding r by simp
  have "(3::nat) < length (rows accent_table)" unfolding r by simp
  with cells j have "text_rows sample accent_table ! 3 ! 0 =
          (case rows accent_table ! 3 ! 0 of
             Str s \<Rightarrow> Str (lower sample (strip s)) | Num n \<Rightarrow> NaN | NaN \<Rightarrow> NaN
           | NoneVal \<Rightarrow> NoneVal)" by blast
  then have b: "text_rows sample accent_table ! 3 ! 0 = NoneVal" unfolding r by simp
  from w ct r m k e a b show ?thesis by (simp only: simp_thms)
qed

end
